theory Spec2Isabelle
  imports Main
begin

section \<open>Strings as Python sees them\<close>

text \<open>
  Script text is modelled as \<^typ>\<open>string\<close>, one \<^typ>\<open>char\<close> per code point, so the model
  covers text whose code points lie below 256. On that range \<open>is_space\<close> is Python's
  \<^verbatim>\<open>str.isspace\<close> (which is also what \<^verbatim>\<open>\s\<close> of the \<^verbatim>\<open>re\<close> module and
  \<^verbatim>\<open>str.strip()\<close> use) and \<open>lower\<close> is \<^verbatim>\<open>str.lower\<close>.
\<close>

definition is_space :: "char \<Rightarrow> bool" where
  "is_space c = (let n = of_char c :: nat in
     (9 \<le> n \<and> n \<le> 13) \<or> (28 \<le> n \<and> n \<le> 32) \<or> n = 133 \<or> n = 160)"

definition lower_char :: "char \<Rightarrow> char" where
  "lower_char c = (let n = of_char c :: nat in
     if (65 \<le> n \<and> n \<le> 90) \<or> (192 \<le> n \<and> n \<le> 222 \<and> n \<noteq> 215)
     then char_of (n + 32) else c)"

definition lower :: "string \<Rightarrow> string" where
  "lower s = map lower_char s"

definition strip :: "string \<Rightarrow> string" where
  "strip s = rev (dropWhile is_space (rev (dropWhile is_space s)))"

definition startswith :: "string \<Rightarrow> string \<Rightarrow> bool" where
  "startswith s p = (take (length p) s = p)"


text \<open>\<^verbatim>\<open>sub in s\<close>: some suffix of \<open>s\<close> starts with \<open>sub\<close>.\<close>

fun contains :: "string \<Rightarrow> string \<Rightarrow> bool" where
  "contains sub [] = (sub = [])"
| "contains sub (c # cs) = (startswith (c # cs) sub \<or> contains sub cs)"

text \<open>
  \<^verbatim>\<open>s.split(sep)\<close> for a non-empty separator: the occurrences of \<open>sep\<close> are found from
  the left and do not overlap; \<open>cur\<close> is the piece read so far.
\<close>

fun split_from :: "string \<Rightarrow> string \<Rightarrow> string \<Rightarrow> string list" where
  "split_from sep cur [] = [cur]"
| "split_from sep cur (c # cs) =
     (if sep \<noteq> [] \<and> startswith (c # cs) sep
      then cur # split_from sep [] (drop (length sep - 1) cs)
      else split_from sep (cur @ [c]) cs)"

definition split :: "string \<Rightarrow> string \<Rightarrow> string list" where
  "split s sep = split_from sep [] s"

text \<open>The decimal numeral that an f-string prints for a non-negative integer.\<close>

definition digit_char :: "nat \<Rightarrow> char" where
  "digit_char d = char_of (48 + d)"

fun str_nat :: "nat \<Rightarrow> string" where
  "str_nat n = (if n < 10 then [digit_char n] else str_nat (n div 10) @ [digit_char (n mod 10)])"

declare str_nat.simps [simp del]

section \<open>Regular expressions of the source\<close>

text \<open>
  A pattern is used only through \<^verbatim>\<open>re.match(p, line, re.IGNORECASE)\<close>, so a compiled
  pattern is modelled by the predicate it decides. The patterns written in the source are
  built from three pieces, each returning the rest of the text after a successful match:
  \<open>ws0\<close> is \<^verbatim>\<open>\s*\<close>, \<open>ws1\<close> is \<^verbatim>\<open>\s+\<close> and \<open>lit w\<close> is the literal \<open>w\<close> (given in
  lower case) matched without regard to case. In every pattern below a run of white space
  is followed by a literal that is not white space or by the end of the pattern, so the
  greedy match is the only candidate.
\<close>

type_synonym pattern = "string \<Rightarrow> bool"

definition ws0 :: "string \<Rightarrow> string option" where
  "ws0 s = Some (dropWhile is_space s)"

definition ws1 :: "string \<Rightarrow> string option" where
  "ws1 s = (case s of [] \<Rightarrow> None
            | c # cs \<Rightarrow> if is_space c then Some (dropWhile is_space cs) else None)"

definition lit :: "string \<Rightarrow> string \<Rightarrow> string option" where
  "lit w s = (if lower (take (length w) s) = w then Some (drop (length w) s) else None)"

fun seq :: "(string \<Rightarrow> string option) list \<Rightarrow> string \<Rightarrow> string option" where
  "seq [] s = Some s"
| "seq (p # ps) s = (case p s of None \<Rightarrow> None | Some r \<Rightarrow> seq ps r)"

definition matches :: "(string \<Rightarrow> string option) list \<Rightarrow> pattern" where
  "matches ps s = (seq ps s \<noteq> None)"

text \<open>\<^verbatim>\<open>^\s*if\s+.*\<close>, the trigger of a conditional block.\<close>

definition re_if :: pattern where
  "re_if = matches [ws0, lit ''if'', ws1]"

section \<open>Node type configuration\<close>

text \<open>
  An entry of \<^verbatim>\<open>node_types\<close> is a dictionary read with
  \<^verbatim>\<open>nc.get("pattern", "")\<close> and \<^verbatim>\<open>nc.get("name", default_node_type)\<close>: either key
  may be missing. The empty pattern matches every line.
\<close>

record node_type_entry =
  nt_name :: "string option"
  nt_pattern :: "pattern option"

record config =
  node_types :: "node_type_entry list"
  default_node_type :: string
  ignore_patterns :: "pattern list"

definition entry_pattern :: "node_type_entry \<Rightarrow> pattern" where
  "entry_pattern nc = (case nt_pattern nc of None \<Rightarrow> (\<lambda>_. True) | Some p \<Rightarrow> p)"

definition entry_name :: "config \<Rightarrow> node_type_entry \<Rightarrow> string" where
  "entry_name cfg nc = (case nt_name nc of None \<Rightarrow> default_node_type cfg | Some n \<Rightarrow> n)"

definition entry :: "string \<Rightarrow> pattern \<Rightarrow> node_type_entry" where
  "entry n p = \<lparr>nt_name = Some n, nt_pattern = Some p\<rparr>"

text \<open>The configuration that \<^verbatim>\<open>_load_node_types_config\<close> falls back to.\<close>

definition default_config :: config where
  "default_config = \<lparr>
     node_types = [
       entry ''start'' (matches [lit ''start'']),
       entry ''end'' (matches [lit ''end'']),
       entry ''function'' (matches [ws0, lit ''function'', ws1]),
       entry ''function_call'' (matches [ws0, lit ''call'', ws1]),
       entry ''jump'' (matches [ws0, lit ''jump'', ws1, lit ''to'', ws1]),
       entry ''wait'' (matches [ws0, lit ''wait'', ws1]),
       entry ''show'' (matches [ws0, lit ''show'', ws1]),
       entry ''condition'' re_if],
     default_node_type = ''dialogue'',
     ignore_patterns = [
       matches [ws0, lit ''name'', ws0, lit '':''],
       (\<lambda>s. dropWhile is_space s = [])]\<rparr>"

section \<open>Graph nodes and the builder\<close>

text \<open>
  A \<^verbatim>\<open>ScriptGraphNode\<close> as the builder fills it; the layout fields keep their constructor
  defaults during parsing and are left out.
\<close>

record node =
  node_id :: string
  node_type :: string
  content :: string

type_synonym edge = "string \<times> string"

datatype error = IndexError

definition index :: "'a list \<Rightarrow> nat \<Rightarrow> error + 'a" where
  "index xs i = (if i < length xs then Inr (xs ! i) else Inl IndexError)"

text \<open>\<^verbatim>\<open>xs[-1]\<close>.\<close>

definition index_last :: "'a list \<Rightarrow> error + 'a" where
  "index_last xs = (if xs = [] then Inl IndexError else Inr (last xs))"

definition mk_id :: "nat \<Rightarrow> string" where
  "mk_id k = ''n_'' @ str_nat k"

datatype item = Conditional "string list" | Normal "string list"

definition is_trigger :: "string \<Rightarrow> bool" where
  "is_trigger line = (re_if line \<or> contains ''If Show Variant'' line)"

subsection \<open>Grouping the lines of a section\<close>

text \<open>
  The inner \<^verbatim>\<open>while\<close> of the pre-scan: lines are appended to the block up to and
  including one that reads \<^verbatim>\<open>endif\<close>, or up to the end of the section.
\<close>

function collect_block :: "string list \<Rightarrow> nat \<Rightarrow> string list \<Rightarrow> error + (string list \<times> nat)" where
  "collect_block lines line_idx block =
     (if line_idx < length lines then
        (case index lines line_idx of
           Inl e \<Rightarrow> Inl e
         | Inr raw \<Rightarrow>
             (let next_line = strip raw in
              if lower next_line = ''endif'' then Inr (block @ [next_line], line_idx + 1)
              else collect_block lines (line_idx + 1) (block @ [next_line])))
      else Inr (block, line_idx))"
  by pat_completeness auto
termination
  by (relation "measure (\<lambda>(lines, line_idx, block). length lines - line_idx)") auto

declare collect_block.simps [simp del]

lemma collect_block_idx:
  "collect_block lines i block = Inr (b, j) \<Longrightarrow> i \<le> j"
proof (induction lines i block rule: collect_block.induct)
  case (1 lines line_idx block)
  show ?case
  proof (cases "line_idx < length lines")
    case True
    then have ix: "index lines line_idx = Inr (lines ! line_idx)"
      by (simp add: index_def)
    show ?thesis
    proof (cases "lower (strip (lines ! line_idx)) = ''endif''")
      case True
      with \<open>line_idx < length lines\<close> ix "1.prems" show ?thesis
        by (simp add: collect_block.simps [of lines line_idx])
    next
      case False
      with \<open>line_idx < length lines\<close> ix "1.prems"
      have "collect_block lines (line_idx + 1) (block @ [strip (lines ! line_idx)]) = Inr (b, j)"
        by (simp add: collect_block.simps [of lines line_idx])
      with "1.IH" [OF \<open>line_idx < length lines\<close> ix refl False] show ?thesis
        by simp
    qed
  next
    case False
    with "1.prems" show ?thesis
      by (simp add: collect_block.simps [of lines line_idx])
  qed
qed

function group_lines :: "string list \<Rightarrow> nat \<Rightarrow> item list \<Rightarrow> error + item list" where
  "group_lines lines line_idx processed_lines =
     (if line_idx < length lines then
        (case index lines line_idx of
           Inl e \<Rightarrow> Inl e
         | Inr raw \<Rightarrow>
             (let line = strip raw in
              if is_trigger line then
                (case collect_block lines (line_idx + 1) [line] of
                   Inl e \<Rightarrow> Inl e
                 | Inr (conditional_block, line_idx') \<Rightarrow>
                     group_lines lines line_idx' (processed_lines @ [Conditional conditional_block]))
              else group_lines lines (line_idx + 1) (processed_lines @ [Normal [line]])))
      else Inr processed_lines)"
  by pat_completeness auto
termination
proof (relation "measure (\<lambda>(lines, line_idx, processed_lines). length lines - line_idx)")
  show "wf (measure (\<lambda>(lines, line_idx, processed_lines). length lines - line_idx))"
    by simp
next
  fix lines :: "string list" and line_idx processed_lines x2 x xa x2a x1 y
  assume "line_idx < length lines"
    and "collect_block lines (line_idx + 1) [x] = Inr x2a"
    and "(x1, y) = x2a"
  then have "line_idx + 1 \<le> y"
    using collect_block_idx [of lines "line_idx + 1" "[x]" x1 y] by simp
  with \<open>line_idx < length lines\<close>
  show "((lines, y, processed_lines @ [Conditional x1]), lines, line_idx, processed_lines)
        \<in> measure (\<lambda>(lines, line_idx, processed_lines). length lines - line_idx)"
    by simp
next
  fix lines :: "string list" and line_idx :: nat and processed_lines :: "item list"
    and x2 :: string and x :: string
  assume "line_idx < length lines"
  then show "((lines, line_idx + 1, processed_lines @ [Normal [x]]), lines, line_idx, processed_lines)
        \<in> measure (\<lambda>(lines, line_idx, processed_lines). length lines - line_idx)"
    by simp
qed

declare group_lines.simps [simp del]

subsection \<open>A conditional block\<close>

text \<open>
  \<^verbatim>\<open>current_block\<close> is \<^verbatim>\<open>None\<close> or an alias of one of the two branch lists; the
  alias is modelled by a tag, and appending through it appends to the list it names.
\<close>

datatype current = NoBlock | TrueBlock | FalseBlock

record routing =
  true_block :: "string list"
  false_block :: "string list"
  current_block :: current
  condition_content :: string

definition newline :: char where
  "newline = CHR 0x0A"

function route_lines :: "string list \<Rightarrow> nat \<Rightarrow> routing \<Rightarrow> error + routing" where
  "route_lines lines i r =
     (if i < length lines then
        (case index lines i of
           Inl e \<Rightarrow> Inl e
         | Inr raw \<Rightarrow>
             (let line = strip raw in
              if lower line = ''true:'' then
                route_lines lines (i + 1) (r\<lparr>current_block := TrueBlock\<rparr>)
              else if lower line = ''false:'' then
                route_lines lines (i + 1) (r\<lparr>current_block := FalseBlock\<rparr>)
              else if lower line = ''endif'' then Inr r
              else if current_block r = TrueBlock then
                route_lines lines (i + 1) (r\<lparr>true_block := true_block r @ [line]\<rparr>)
              else if current_block r = FalseBlock then
                route_lines lines (i + 1) (r\<lparr>false_block := false_block r @ [line]\<rparr>)
              else
                route_lines lines (i + 1)
                  (r\<lparr>condition_content := condition_content r @ [newline] @ line\<rparr>)))
      else Inr r)"
  by pat_completeness auto
termination
  by (relation "measure (\<lambda>(lines, i, r). length lines - i)") auto

declare route_lines.simps [simp del]

text \<open>
  The classification loop of \<^verbatim>\<open>process_branch\<close>: the name of the first entry whose
  pattern matches, the default type when none does.
\<close>

definition classify_branch :: "config \<Rightarrow> string \<Rightarrow> string" where
  "classify_branch cfg line =
     (case find (\<lambda>nc. entry_pattern nc line) (node_types cfg) of
        None \<Rightarrow> default_node_type cfg
      | Some nc \<Rightarrow> entry_name cfg nc)"

text \<open>The same loop on the main line, where \<^verbatim>\<open>function_call\<close> is renamed.\<close>

definition classify_main :: "config \<Rightarrow> string \<Rightarrow> string" where
  "classify_main cfg line =
     (case find (\<lambda>nc. entry_pattern nc line) (node_types cfg) of
        None \<Rightarrow> default_node_type cfg
      | Some nc \<Rightarrow>
          (let node_type = entry_name cfg nc
           in if node_type = ''function_call'' then ''function'' else node_type))"

fun process_branch :: "config \<Rightarrow> string list \<Rightarrow> nat \<Rightarrow> node list \<times> nat" where
  "process_branch cfg [] counter = ([], counter)"
| "process_branch cfg (line # block) counter =
     (if strip line = [] then process_branch cfg block counter
      else
        (let nt = classify_branch cfg line;
             n = \<lparr>node_id = mk_id counter, node_type = nt, content = line\<rparr>;
             (branch_nodes, counter') = process_branch cfg block (counter + 1)
         in (n # branch_nodes, counter')))"

text \<open>
  \<^verbatim>\<open>for j in range(len(ns)-1): conns.append((ns[j].id, ns[j+1].id))\<close>, over the list
  of values of \<open>j\<close>.
\<close>

fun chain :: "node list \<Rightarrow> nat list \<Rightarrow> error + edge list" where
  "chain ns [] = Inr []"
| "chain ns (j # js) =
     (case index ns j of
        Inl e \<Rightarrow> Inl e
      | Inr a \<Rightarrow>
          (case index ns (j + 1) of
             Inl e \<Rightarrow> Inl e
           | Inr b \<Rightarrow>
               (case chain ns js of
                  Inl e \<Rightarrow> Inl e
                | Inr es \<Rightarrow> Inr ((node_id a, node_id b) # es))))"

definition branch_conns :: "node \<Rightarrow> node list \<Rightarrow> error + edge list" where
  "branch_conns condition_node ns =
     (if ns \<noteq> [] then
        (case index ns 0 of
           Inl e \<Rightarrow> Inl e
         | Inr first \<Rightarrow>
             (case chain ns [0..<length ns - 1] of
                Inl e \<Rightarrow> Inl e
              | Inr es \<Rightarrow> Inr ((node_id condition_node, node_id first) # es)))
      else Inr [])"

definition branch_tail :: "node \<Rightarrow> node list \<Rightarrow> error + node" where
  "branch_tail condition_node ns = (if ns \<noteq> [] then index_last ns else Inr condition_node)"

type_synonym block_result = "node list \<times> edge list \<times> node option \<times> node option"

definition parse_conditional_block :: "config \<Rightarrow> string list \<Rightarrow> nat \<Rightarrow> error + block_result" where
  "parse_conditional_block cfg lines start_id =
     (if lines = [] then Inr ([], [], None, None)
      else
        (case index lines 0 of
           Inl e \<Rightarrow> Inl e
         | Inr first \<Rightarrow>
             (case route_lines lines 1
                     \<lparr>true_block = [], false_block = [], current_block = NoBlock,
                      condition_content = strip first\<rparr> of
                Inl e \<Rightarrow> Inl e
              | Inr r \<Rightarrow>
                  (let condition_node =
                         \<lparr>node_id = mk_id start_id, node_type = ''if_show_variant'',
                          content = condition_content r\<rparr>;
                       (t_nodes, c1) = process_branch cfg (true_block r) (start_id + 1);
                       (f_nodes, c2) = process_branch cfg (false_block r) c1
                   in
                     (case branch_conns condition_node t_nodes of
                        Inl e \<Rightarrow> Inl e
                      | Inr t_conns \<Rightarrow>
                          (case branch_conns condition_node f_nodes of
                             Inl e \<Rightarrow> Inl e
                           | Inr f_conns \<Rightarrow>
                               (case branch_tail condition_node t_nodes of
                                  Inl e \<Rightarrow> Inl e
                                | Inr l_true \<Rightarrow>
                                    (case branch_tail condition_node f_nodes of
                                       Inl e \<Rightarrow> Inl e
                                     | Inr l_false \<Rightarrow>
                                         Inr ([condition_node] @ t_nodes @ f_nodes,
                                              t_conns @ f_conns,
                                              Some l_true, Some l_false)))))))))"

subsection \<open>The main loop\<close>

record builder =
  nodes :: "node list"
  connections :: "edge list"
  node_id_counter :: nat
  prev_node :: "node option"
  conditional_end_nodes :: "node list"

definition init_builder :: builder where
  "init_builder = \<lparr>nodes = [], connections = [], node_id_counter = 0,
                    prev_node = None, conditional_end_nodes = []\<rparr>"

definition ignored :: "config \<Rightarrow> string \<Rightarrow> bool" where
  "ignored cfg line = list_ex (\<lambda>p. p line) (ignore_patterns cfg)"

text \<open>The body of the loop over the lines of a normal item.\<close>

definition add_line :: "config \<Rightarrow> builder \<Rightarrow> string \<Rightarrow> builder" where
  "add_line cfg b line =
     (if ignored cfg line then b
      else
        (let n = \<lparr>node_id = mk_id (node_id_counter b), node_type = classify_main cfg line,
                  content = line\<rparr>
         in b\<lparr>nodes := nodes b @ [n],
               connections := connections b
                 @ map (\<lambda>ce. (node_id ce, node_id n)) (conditional_end_nodes b)
                 @ (case prev_node b of
                      Some p \<Rightarrow> if conditional_end_nodes b = [] then [(node_id p, node_id n)] else []
                    | None \<Rightarrow> []),
               conditional_end_nodes := [],
               prev_node := Some n,
               node_id_counter := node_id_counter b + 1\<rparr>))"

definition opt_list :: "'a option \<Rightarrow> 'a list" where
  "opt_list x = (case x of None \<Rightarrow> [] | Some v \<Rightarrow> [v])"

definition add_conditional :: "config \<Rightarrow> builder \<Rightarrow> string list \<Rightarrow> error + builder" where
  "add_conditional cfg b item_lines =
     (case parse_conditional_block cfg item_lines (node_id_counter b) of
        Inl e \<Rightarrow> Inl e
      | Inr (c_nodes, c_conns, l_true, l_false) \<Rightarrow>
          (case (case prev_node b of
                   Some p \<Rightarrow>
                     if c_nodes \<noteq> [] then
                       (case index c_nodes 0 of
                          Inl e \<Rightarrow> Inl e
                        | Inr c \<Rightarrow> Inr [(node_id p, node_id c)])
                     else Inr []
                 | None \<Rightarrow> Inr []) of
             Inl e \<Rightarrow> Inl e
           | Inr entry_conn \<Rightarrow>
               Inr (b\<lparr>nodes := nodes b @ c_nodes,
                      connections := connections b @ c_conns @ entry_conn,
                      conditional_end_nodes :=
                        conditional_end_nodes b @ opt_list l_true @ opt_list l_false,
                      node_id_counter := node_id_counter b + length c_nodes,
                      prev_node := None\<rparr>)))"

definition process_item :: "config \<Rightarrow> builder \<Rightarrow> item \<Rightarrow> error + builder" where
  "process_item cfg b it =
     (case it of
        Conditional item_lines \<Rightarrow> add_conditional cfg b item_lines
      | Normal item_lines \<Rightarrow> Inr (foldl (add_line cfg) b item_lines))"

fun process_items :: "config \<Rightarrow> builder \<Rightarrow> item list \<Rightarrow> error + builder" where
  "process_items cfg b [] = Inr b"
| "process_items cfg b (it # its) =
     (case process_item cfg b it of
        Inl e \<Rightarrow> Inl e
      | Inr b' \<Rightarrow> process_items cfg b' its)"

text \<open>The graph of one section: what \<^verbatim>\<open>set_data\<close> receives.\<close>

definition build_graph :: "config \<Rightarrow> string list \<Rightarrow> error + (node list \<times> edge list)" where
  "build_graph cfg lines =
     (case group_lines lines 0 [] of
        Inl e \<Rightarrow> Inl e
      | Inr processed_lines \<Rightarrow>
          (case process_items cfg init_builder processed_lines of
             Inl e \<Rightarrow> Inl e
           | Inr b \<Rightarrow> Inr (nodes b, connections b)))"

section \<open>The builder without index checks\<close>

text \<open>
  The loops above read their lists through checked indexing. The functions of this section
  walk the same lists structurally; the lemmas that follow show that the checked versions
  never fail and return what these compute.
\<close>

fun take_block :: "string list \<Rightarrow> string list \<times> string list" where
  "take_block [] = ([], [])"
| "take_block (raw # rest) =
     (if lower (strip raw) = ''endif'' then ([strip raw], rest)
      else (strip raw # fst (take_block rest), snd (take_block rest)))"

lemma take_block_rest: "snd (take_block xs) = drop (length xs - length (snd (take_block xs))) xs \<and> length (snd (take_block xs)) \<le> length xs"
proof (induction xs)
  case Nil
  then show ?case by simp
next
  case (Cons raw rest)
  show ?case
  proof (cases "lower (strip raw) = ''endif''")
    case True
    then show ?thesis by simp
  next
    case False
    let ?r = "snd (take_block rest)"
    from Cons have a: "?r = drop (length rest - length ?r) rest" and b: "length ?r \<le> length rest"
      by simp_all
    from b have "Suc (length rest) - length ?r = Suc (length rest - length ?r)" by simp
    with False a b show ?thesis by simp
  qed
qed

lemma take_block_length: "length (snd (take_block xs)) \<le> length xs"
  using take_block_rest by blast

function groups :: "string list \<Rightarrow> item list" where
  "groups [] = []"
| "groups (raw # rest) =
     (if is_trigger (strip raw)
      then Conditional (strip raw # fst (take_block rest)) # groups (snd (take_block rest))
      else Normal [strip raw] # groups rest)"
  by pat_completeness auto
termination
  by (relation "measure length") (auto simp: take_block_length less_Suc_eq_le)

lemma drop_as_cons: "i < length xs \<Longrightarrow> drop i xs = xs ! i # drop (Suc i) xs"
  by (simp add: Cons_nth_drop_Suc)

lemma collect_block_pure:
  "i \<le> length lines \<Longrightarrow> collect_block lines i block =
     Inr (block @ fst (take_block (drop i lines)),
          length lines - length (snd (take_block (drop i lines))))"
proof (induction lines i block rule: collect_block.induct)
  case (1 lines line_idx block)
  show ?case
  proof (cases "line_idx < length lines")
    case True
    then have ix: "index lines line_idx = Inr (lines ! line_idx)"
      by (simp add: index_def)
    note d = drop_as_cons [OF True]
    show ?thesis
    proof (cases "lower (strip (lines ! line_idx)) = ''endif''")
      case True
      with \<open>line_idx < length lines\<close> ix d show ?thesis
        by (simp add: collect_block.simps [of lines line_idx]) 
    next
      case False
      from "1.IH" [OF \<open>line_idx < length lines\<close> ix refl False] False \<open>line_idx < length lines\<close> ix d
      show ?thesis
        by (simp add: collect_block.simps [of lines line_idx])
    qed
  next
    case False
    with "1.prems" have "line_idx = length lines" by simp
    then show ?thesis
      by (simp add: collect_block.simps [of lines "length lines"])
  qed
qed

lemma group_lines_pure:
  "group_lines lines i acc = Inr (acc @ groups (drop i lines))"
proof (induction lines i acc rule: group_lines.induct)
  case (1 lines line_idx processed_lines)
  show ?case
  proof (cases "line_idx < length lines")
    case True
    then have ix: "index lines line_idx = Inr (lines ! line_idx)"
      by (simp add: index_def)
    note d = drop_as_cons [OF True]
    let ?line = "strip (lines ! line_idx)"
    show ?thesis
    proof (cases "is_trigger ?line")
      case trig: True
      let ?tb = "take_block (drop (Suc line_idx) lines)"
      let ?j = "length lines - length (snd ?tb)"
      have cb: "collect_block lines (line_idx + 1) [?line] = Inr ([?line] @ fst ?tb, ?j)"
        using collect_block_pure [of "line_idx + 1" lines "[?line]"] True by simp
      have len: "length (snd ?tb) \<le> length lines - Suc line_idx"
        using take_block_length [of "drop (Suc line_idx) lines"] by simp
      have "snd ?tb = drop (length (drop (Suc line_idx) lines) - length (snd ?tb)) (drop (Suc line_idx) lines)"
        using take_block_rest [of "drop (Suc line_idx) lines"] by blast
      also have "\<dots> = drop (Suc line_idx + (length lines - Suc line_idx - length (snd ?tb))) lines"
        by (simp add: add.commute)
      also have "Suc line_idx + (length lines - Suc line_idx - length (snd ?tb)) = ?j"
        using len True by arith
      finally have rest: "drop ?j lines = snd ?tb" by simp
      from "1.IH"(1) [OF True ix refl trig cb refl]
      have "group_lines lines ?j (processed_lines @ [Conditional ([?line] @ fst ?tb)]) =
            Inr ((processed_lines @ [Conditional ([?line] @ fst ?tb)]) @ groups (drop ?j lines))" .
      with True ix trig cb rest d show ?thesis
        by (simp add: group_lines.simps [of lines line_idx])
    next
      case False
      from "1.IH"(2) [OF True ix refl False] True ix False d show ?thesis
        by (simp add: group_lines.simps [of lines line_idx])
    qed
  next
    case False
    then show ?thesis
      by (simp add: group_lines.simps [of lines line_idx])
  qed
qed

fun route :: "string list \<Rightarrow> routing \<Rightarrow> routing" where
  "route [] r = r"
| "route (raw # rest) r =
     (let line = strip raw in
      if lower line = ''true:'' then route rest (r\<lparr>current_block := TrueBlock\<rparr>)
      else if lower line = ''false:'' then route rest (r\<lparr>current_block := FalseBlock\<rparr>)
      else if lower line = ''endif'' then r
      else if current_block r = TrueBlock then route rest (r\<lparr>true_block := true_block r @ [line]\<rparr>)
      else if current_block r = FalseBlock then route rest (r\<lparr>false_block := false_block r @ [line]\<rparr>)
      else route rest (r\<lparr>condition_content := condition_content r @ [newline] @ line\<rparr>))"

lemma route_lines_pure: "route_lines lines i r = Inr (route (drop i lines) r)"
proof (induction lines i r rule: route_lines.induct)
  case (1 lines i r)
  show ?case
  proof (cases "i < length lines")
    case True
    then have ix: "index lines i = Inr (lines ! i)"
      by (simp add: index_def)
    note d = drop_as_cons [OF True]
    let ?line = "strip (lines ! i)"
    consider (t) "lower ?line = ''true:''"
      | (f) "lower ?line \<noteq> ''true:''" "lower ?line = ''false:''"
      | (e) "lower ?line \<noteq> ''true:''" "lower ?line \<noteq> ''false:''" "lower ?line = ''endif''"
      | (tb) "lower ?line \<noteq> ''true:''" "lower ?line \<noteq> ''false:''" "lower ?line \<noteq> ''endif''" "current_block r = TrueBlock"
      | (fb) "lower ?line \<noteq> ''true:''" "lower ?line \<noteq> ''false:''" "lower ?line \<noteq> ''endif''" "current_block r \<noteq> TrueBlock" "current_block r = FalseBlock"
      | (nb) "lower ?line \<noteq> ''true:''" "lower ?line \<noteq> ''false:''" "lower ?line \<noteq> ''endif''" "current_block r \<noteq> TrueBlock" "current_block r \<noteq> FalseBlock"
      by blast
    then show ?thesis
    proof cases
      case t
      from "1.IH"(1) [OF True ix refl t] True ix t d show ?thesis
        by (simp add: route_lines.simps [of lines i])
    next
      case f
      from "1.IH"(2) [OF True ix refl f] True ix f d show ?thesis
        by (simp add: route_lines.simps [of lines i])
    next
      case e
      with True ix d show ?thesis
        by (simp add: route_lines.simps [of lines i])
    next
      case tb
      from "1.IH"(3) [OF True ix refl tb] True ix tb d show ?thesis
        by (simp add: route_lines.simps [of lines i])
    next
      case fb
      from "1.IH"(4) [OF True ix refl fb] True ix fb d show ?thesis
        by (simp add: route_lines.simps [of lines i])
    next
      case nb
      from "1.IH"(5) [OF True ix refl nb] True ix nb d show ?thesis
        by (simp add: route_lines.simps [of lines i])
    qed
  next
    case False
    then show ?thesis
      by (simp add: route_lines.simps [of lines i])
  qed
qed

definition links :: "node list \<Rightarrow> edge list" where
  "links ns = map (\<lambda>j. (node_id (ns ! j), node_id (ns ! (j + 1)))) [0..<length ns - 1]"

definition fan :: "node \<Rightarrow> node list \<Rightarrow> edge list" where
  "fan c ns = (if ns = [] then [] else (node_id c, node_id (hd ns)) # links ns)"

definition tail_of :: "node \<Rightarrow> node list \<Rightarrow> node" where
  "tail_of c ns = (if ns = [] then c else last ns)"

definition cond_block :: "config \<Rightarrow> string list \<Rightarrow> nat \<Rightarrow> block_result" where
  "cond_block cfg lines start_id =
     (let r = route (tl lines)
                \<lparr>true_block = [], false_block = [], current_block = NoBlock,
                 condition_content = strip (hd lines)\<rparr>;
          c = \<lparr>node_id = mk_id start_id, node_type = ''if_show_variant'',
               content = condition_content r\<rparr>;
          t = process_branch cfg (true_block r) (start_id + 1);
          f = process_branch cfg (false_block r) (snd t)
      in ([c] @ fst t @ fst f, fan c (fst t) @ fan c (fst f),
          Some (tail_of c (fst t)), Some (tail_of c (fst f))))"

lemma chain_pure:
  "\<forall>j\<in>set js. j + 1 < length ns \<Longrightarrow>
   chain ns js = Inr (map (\<lambda>j. (node_id (ns ! j), node_id (ns ! (j + 1)))) js)"
  by (induction js) (simp_all add: index_def)

lemma branch_conns_pure: "branch_conns c ns = Inr (fan c ns)"
proof (cases "ns = []")
  case True
  then show ?thesis by (simp add: branch_conns_def fan_def)
next
  case False
  then have "0 < length ns" by simp
  have "chain ns [0..<length ns - 1] = Inr (links ns)"
    unfolding links_def by (rule chain_pure) auto
  with False \<open>0 < length ns\<close> show ?thesis
    by (simp add: branch_conns_def fan_def index_def hd_conv_nth)
qed

lemma branch_tail_pure: "branch_tail c ns = Inr (tail_of c ns)"
  by (simp add: branch_tail_def tail_of_def index_last_def)

lemma parse_conditional_block_pure:
  "lines \<noteq> [] \<Longrightarrow> parse_conditional_block cfg lines start_id = Inr (cond_block cfg lines start_id)"
proof -
  assume ne: "lines \<noteq> []"
  then have ix: "index lines 0 = Inr (hd lines)"
    by (simp add: index_def hd_conv_nth)
  from ne have d: "drop 1 lines = tl lines"
    by (simp add: drop_Suc)
  show ?thesis
    unfolding parse_conditional_block_def cond_block_def
    using ne
    by (simp only: ix route_lines_pure d branch_conns_pure branch_tail_pure Let_def
        split_beta sum.case if_False)
qed

lemma process_branch_ids:
  "snd (process_branch cfg block c) = c + length (fst (process_branch cfg block c)) \<and>
   map node_id (fst (process_branch cfg block c)) =
     map mk_id [c..<c + length (fst (process_branch cfg block c))]"
proof (induction block arbitrary: c)
  case Nil
  then show ?case by simp
next
  case (Cons line block)
  show ?case
  proof (cases "strip line = []")
    case True
    with Cons show ?thesis by simp
  next
    case False
    let ?p = "process_branch cfg block (c + 1)"
    let ?n = "length (fst ?p)"
    from Cons [of "c + 1"] have a: "snd ?p = c + 1 + ?n"
      and b: "map node_id (fst ?p) = map mk_id [c + 1..<c + 1 + ?n]"
      by simp_all
    have u: "[c..<c + Suc ?n] = c # [c + 1..<c + 1 + ?n]"
      by (simp del: upt_Suc add: upt_conv_Cons)
    from False have e: "process_branch cfg (line # block) c =
        (\<lparr>node_id = mk_id c, node_type = classify_branch cfg line, content = line\<rparr> # fst ?p, snd ?p)"
      by (simp add: Let_def split_beta)
    show ?thesis
      unfolding e using a b u by (simp del: upt_Suc)
  qed
qed

section \<open>Node identifiers\<close>

subsection \<open>Node ids are injective\<close>

lemma digit_char_inj: "a < 10 \<Longrightarrow> b < 10 \<Longrightarrow> digit_char a = digit_char b \<Longrightarrow> a = b"
proof -
  assume a: "a < 10" and b: "b < 10" and e: "digit_char a = digit_char b"
  from e have "(of_char (digit_char a) :: nat) = of_char (digit_char b)" by simp
  with a b show "a = b" by (simp add: digit_char_def)
qed

lemma str_nat_nonempty: "str_nat n \<noteq> []"
  by (subst str_nat.simps) simp

lemma str_nat_length_one: "length (str_nat n) = 1 \<longleftrightarrow> n < 10"
proof (cases "n < 10")
  case True
  then show ?thesis by (subst str_nat.simps) simp
next
  case False
  have "length (str_nat (n div 10)) \<noteq> 0" using str_nat_nonempty by simp
  with False show ?thesis by (subst str_nat.simps) simp
qed

lemma str_nat_inj: "str_nat n = str_nat m \<Longrightarrow> n = m"
proof (induction n arbitrary: m rule: str_nat.induct)
  case (1 n)
  show ?case
  proof (cases "n < 10")
    case True
    with "1.prems" have "m < 10" using str_nat_length_one [of n] str_nat_length_one [of m] by simp
    with True "1.prems" show ?thesis
      by (simp add: str_nat.simps [of n] str_nat.simps [of m] digit_char_inj)
  next
    case False
    with "1.prems" have m: "\<not> m < 10" using str_nat_length_one [of n] str_nat_length_one [of m] by simp
    from False m "1.prems" have "str_nat (n div 10) @ [digit_char (n mod 10)] = str_nat (m div 10) @ [digit_char (m mod 10)]"
      by (simp add: str_nat.simps [of n] str_nat.simps [of m])
    then have a: "str_nat (n div 10) = str_nat (m div 10)" and b: "digit_char (n mod 10) = digit_char (m mod 10)"
      by simp_all
    from "1.IH" [OF False a] have "n div 10 = m div 10" .
    moreover from b have "n mod 10 = m mod 10" by (intro digit_char_inj) simp_all
    ultimately show ?thesis by (metis div_mult_mod_eq)
  qed
qed

lemma mk_id_inj: "mk_id a = mk_id b \<longleftrightarrow> a = b"
  by (auto simp: mk_id_def dest: str_nat_inj)

lemma inj_mk_id: "inj mk_id"
  by (simp add: inj_def mk_id_inj)

definition id_range :: "nat \<Rightarrow> nat \<Rightarrow> string set" where
  "id_range a b = mk_id ` {a..<b}"

definition numbered :: "nat \<Rightarrow> node list \<Rightarrow> bool" where
  "numbered a ns \<longleftrightarrow> map node_id ns = map mk_id [a..<a + length ns]"

definition builder_ok :: "builder \<Rightarrow> bool" where
  "builder_ok b \<longleftrightarrow>
     numbered 0 (nodes b) \<and> length (nodes b) = node_id_counter b \<and>
     (\<forall>e\<in>set (connections b). fst e \<in> id_range 0 (node_id_counter b) \<and>
                                  snd e \<in> id_range 0 (node_id_counter b)) \<and>
     (\<forall>p. prev_node b = Some p \<longrightarrow> node_id p \<in> id_range 0 (node_id_counter b)) \<and>
     (\<forall>ce\<in>set (conditional_end_nodes b). node_id ce \<in> id_range 0 (node_id_counter b))"

lemma id_range_mono: "a' \<le> a \<Longrightarrow> b \<le> b' \<Longrightarrow> x \<in> id_range a b \<Longrightarrow> x \<in> id_range a' b'"
  by (auto simp: id_range_def)

lemma numbered_nth: "numbered a ns \<Longrightarrow> j < length ns \<Longrightarrow> node_id (ns ! j) = mk_id (a + j)"
proof -
  assume n: "numbered a ns" and j: "j < length ns"
  from j have "node_id (ns ! j) = map node_id ns ! j" by simp
  also from n have "\<dots> = map mk_id [a..<a + length ns] ! j" by (simp add: numbered_def)
  also from j have "\<dots> = mk_id (a + j)" by simp
  finally show ?thesis .
qed

lemma numbered_in_range: "numbered a ns \<Longrightarrow> j < length ns \<Longrightarrow> node_id (ns ! j) \<in> id_range a (a + length ns)"
  by (simp add: numbered_nth id_range_def)

lemma numbered_mem: "numbered a ns \<Longrightarrow> n \<in> set ns \<Longrightarrow> node_id n \<in> id_range a (a + length ns)"
  by (metis in_set_conv_nth numbered_in_range)

lemma numbered_set: "numbered a ns \<Longrightarrow> node_id ` set ns = id_range a (a + length ns)"
proof -
  assume "numbered a ns"
  then have "set (map node_id ns) = set (map mk_id [a..<a + length ns])"
    by (simp add: numbered_def)
  then show ?thesis by (simp add: id_range_def)
qed

lemma numbered_append:
  "numbered a xs \<Longrightarrow> numbered (a + length xs) ys \<Longrightarrow> numbered a (xs @ ys)"
proof -
  assume x: "numbered a xs" and y: "numbered (a + length xs) ys"
  have "[a..<a + length xs + length ys] = [a..<a + length xs] @ [a + length xs..<a + length xs + length ys]"
    by (metis le_add1 upt_add_eq_append)
  with x y show ?thesis by (simp add: numbered_def add.assoc)
qed

lemma numbered_distinct: "numbered a ns \<Longrightarrow> distinct (map node_id ns)"
  by (simp add: numbered_def distinct_map inj_on_def mk_id_inj)

lemma process_branch_numbered: "numbered c (fst (process_branch cfg block c))"
  using process_branch_ids [of cfg block c] by (simp add: numbered_def)

lemma process_branch_counter:
  "snd (process_branch cfg block c) = c + length (fst (process_branch cfg block c))"
  using process_branch_ids [of cfg block c] by simp

lemma links_edges:
  assumes "numbered a ns" and "e \<in> set (links ns)"
  shows "fst e \<in> id_range a (a + length ns) \<and> snd e \<in> id_range a (a + length ns)"
proof -
  from assms(2) obtain j where j: "j < length ns - 1"
    and e: "e = (node_id (ns ! j), node_id (ns ! (j + 1)))"
    by (auto simp: links_def)
  from j have "j < length ns" "j + 1 < length ns" by simp_all
  with assms(1) e show ?thesis by (simp add: numbered_in_range)
qed

lemma fan_edges:
  assumes "numbered a ns" and "e \<in> set (fan c ns)"
  shows "(fst e = node_id c \<or> fst e \<in> id_range a (a + length ns)) \<and>
         snd e \<in> id_range a (a + length ns)"
proof (cases "ns = []")
  case True
  with assms(2) show ?thesis by (simp add: fan_def)
next
  case False
  then have h: "node_id (hd ns) \<in> id_range a (a + length ns)"
    using numbered_mem [OF assms(1)] by simp
  from False assms(2) have "e = (node_id c, node_id (hd ns)) \<or> e \<in> set (links ns)"
    by (simp add: fan_def)
  then show ?thesis
  proof
    assume "e = (node_id c, node_id (hd ns))"
    with h show ?thesis by simp
  next
    assume "e \<in> set (links ns)"
    from links_edges [OF assms(1) this] show ?thesis by simp
  qed
qed

lemma tail_of_id:
  assumes "numbered a ns"
  shows "node_id (tail_of c ns) = node_id c \<or> node_id (tail_of c ns) \<in> id_range a (a + length ns)"
proof (cases "ns = []")
  case True
  then show ?thesis by (simp add: tail_of_def)
next
  case False
  then have "last ns \<in> set ns" by simp
  with False numbered_mem [OF assms] show ?thesis by (simp add: tail_of_def)
qed

text \<open>What a conditional block contributes, given the counter \<open>s\<close> it starts from.\<close>

lemma cond_block_shape:
  assumes "cond_block cfg lines s = (c_nodes, c_conns, l_true, l_false)"
  shows "c_nodes \<noteq> []"
    and "numbered s c_nodes"
    and "\<forall>e\<in>set c_conns. fst e \<in> id_range s (s + length c_nodes) \<and>
                            snd e \<in> id_range (s + 1) (s + length c_nodes)"
    and "\<exists>t f. l_true = Some t \<and> l_false = Some f \<and>
               node_id t \<in> id_range s (s + length c_nodes) \<and>
               node_id f \<in> id_range s (s + length c_nodes)"
proof -
  define r where "r = route (tl lines)
     \<lparr>true_block = [], false_block = [], current_block = NoBlock,
      condition_content = strip (hd lines)\<rparr>"
  define c where "c = \<lparr>node_id = mk_id s, node_type = ''if_show_variant'',
      content = condition_content r\<rparr>"
  define t where "t = fst (process_branch cfg (true_block r) (s + 1))"
  define f where "f = fst (process_branch cfg (false_block r) (s + 1 + length t))"
  have st: "snd (process_branch cfg (true_block r) (s + 1)) = s + 1 + length t"
    unfolding t_def by (rule process_branch_counter)
  from assms have cn: "c_nodes = [c] @ t @ f" and cc: "c_conns = fan c t @ fan c f"
    and lt: "l_true = Some (tail_of c t)" and lf: "l_false = Some (tail_of c f)"
    unfolding cond_block_def Let_def r_def c_def t_def f_def
    by (auto simp: process_branch_counter)
  have nt: "numbered (s + 1) t" unfolding t_def by (rule process_branch_numbered)
  have nf: "numbered (s + 1 + length t) f" unfolding f_def by (rule process_branch_numbered)
  have nc: "numbered s [c]" by (simp add: numbered_def c_def)
  have len: "length c_nodes = 1 + length t + length f" using cn by simp
  show "c_nodes \<noteq> []" using cn by simp
  show num: "numbered s c_nodes"
    unfolding cn using nc nt nf by (intro numbered_append) simp_all
  have cid: "node_id c \<in> id_range s (s + length c_nodes)"
    by (simp add: id_range_def c_def len)
  have tr: "x \<in> id_range (s + 1) (s + 1 + length t) \<Longrightarrow> x \<in> id_range (s + 1) (s + length c_nodes)" for x
    by (erule id_range_mono [rotated 2]) (simp_all add: len)
  have fr: "x \<in> id_range (s + 1 + length t) (s + 1 + length t + length f) \<Longrightarrow> x \<in> id_range (s + 1) (s + length c_nodes)" for x
    by (erule id_range_mono [rotated 2]) (simp_all add: len)
  have up: "x \<in> id_range (s + 1) (s + length c_nodes) \<Longrightarrow> x \<in> id_range s (s + length c_nodes)" for x
    by (erule id_range_mono [rotated 2]) simp_all
  have src: "x = node_id c \<or> x \<in> id_range (s + 1) (s + length c_nodes) \<Longrightarrow>
             x \<in> id_range s (s + length c_nodes)" for x
  proof (erule disjE)
    assume "x = node_id c"
    with cid show ?thesis by simp
  next
    assume "x \<in> id_range (s + 1) (s + length c_nodes)"
    then show ?thesis by (rule up)
  qed
  show "\<forall>e\<in>set c_conns. fst e \<in> id_range s (s + length c_nodes) \<and>
                            snd e \<in> id_range (s + 1) (s + length c_nodes)"
  proof
    fix e assume "e \<in> set c_conns"
    then consider "e \<in> set (fan c t)" | "e \<in> set (fan c f)" using cc by auto
    then show "fst e \<in> id_range s (s + length c_nodes) \<and> snd e \<in> id_range (s + 1) (s + length c_nodes)"
    proof cases
      case 1
      from fan_edges [OF nt 1]
      have x: "fst e = node_id c \<or> fst e \<in> id_range (s + 1) (s + 1 + length t)"
        and y: "snd e \<in> id_range (s + 1) (s + 1 + length t)" by simp_all
      from y have y': "snd e \<in> id_range (s + 1) (s + length c_nodes)" by (rule tr)
      from x have "fst e = node_id c \<or> fst e \<in> id_range (s + 1) (s + length c_nodes)"
        using tr [of "fst e"] by (elim disjE) simp_all
      then have "fst e \<in> id_range s (s + length c_nodes)" by (rule src)
      with y' show ?thesis by simp
    next
      case 2
      from fan_edges [OF nf 2]
      have x: "fst e = node_id c \<or> fst e \<in> id_range (s + 1 + length t) (s + 1 + length t + length f)"
        and y: "snd e \<in> id_range (s + 1 + length t) (s + 1 + length t + length f)" by simp_all
      from y have y': "snd e \<in> id_range (s + 1) (s + length c_nodes)" by (rule fr)
      from x have "fst e = node_id c \<or> fst e \<in> id_range (s + 1) (s + length c_nodes)"
        using fr [of "fst e"] by (elim disjE) simp_all
      then have "fst e \<in> id_range s (s + length c_nodes)" by (rule src)
      with y' show ?thesis by simp
    qed
  qed
  from tail_of_id [OF nt, of c]
  have "node_id (tail_of c t) = node_id c \<or> node_id (tail_of c t) \<in> id_range (s + 1) (s + length c_nodes)"
    using tr [of "node_id (tail_of c t)"] by (elim disjE) simp_all
  then have a: "node_id (tail_of c t) \<in> id_range s (s + length c_nodes)" by (rule src)
  from tail_of_id [OF nf, of c]
  have "node_id (tail_of c f) = node_id c \<or> node_id (tail_of c f) \<in> id_range (s + 1) (s + length c_nodes)"
    using fr [of "node_id (tail_of c f)"] by (elim disjE) simp_all
  then have b: "node_id (tail_of c f) \<in> id_range s (s + length c_nodes)" by (rule src)
  from a b lt lf
  show "\<exists>t f. l_true = Some t \<and> l_false = Some f \<and>
               node_id t \<in> id_range s (s + length c_nodes) \<and>
               node_id f \<in> id_range s (s + length c_nodes)" by simp
qed

lemma builder_ok_init: "builder_ok init_builder"
  by (simp add: builder_ok_def init_builder_def numbered_def)

lemma builder_ok_add_line: "builder_ok b \<Longrightarrow> builder_ok (add_line cfg b line)"
proof (cases "ignored cfg line")
  case True
  assume "builder_ok b"
  with True show ?thesis by (simp add: add_line_def)
next
  case False
  assume i: "builder_ok b"
  let ?k = "node_id_counter b"
  let ?n = "\<lparr>node_id = mk_id ?k, node_type = classify_main cfg line, content = line\<rparr>"
  let ?b = "add_line cfg b line"
  from i have num: "numbered 0 (nodes b)" and len: "length (nodes b) = ?k"
    and es: "\<forall>e\<in>set (connections b). fst e \<in> id_range 0 ?k \<and> snd e \<in> id_range 0 ?k"
    and pv: "\<forall>p. prev_node b = Some p \<longrightarrow> node_id p \<in> id_range 0 ?k"
    and ce: "\<forall>ce\<in>set (conditional_end_nodes b). node_id ce \<in> id_range 0 ?k"
    by (simp_all add: builder_ok_def)
  have up: "x \<in> id_range 0 ?k \<Longrightarrow> x \<in> id_range 0 (?k + 1)" for x
    by (erule id_range_mono [rotated 2]) simp_all
  have new: "mk_id ?k \<in> id_range 0 (?k + 1)" by (simp add: id_range_def)
  from False have nb: "nodes ?b = nodes b @ [?n]" and cb: "node_id_counter ?b = ?k + 1"
    and pb: "prev_node ?b = Some ?n" and ceb: "conditional_end_nodes ?b = []"
    and eb: "connections ?b = connections b
                 @ map (\<lambda>ce. (node_id ce, mk_id ?k)) (conditional_end_nodes b)
                 @ (case prev_node b of
                      Some p \<Rightarrow> if conditional_end_nodes b = [] then [(node_id p, mk_id ?k)] else []
                    | None \<Rightarrow> [])"
    by (simp_all add: add_line_def Let_def split: option.split)
  have "numbered (0 + length (nodes b)) [?n]" by (simp add: numbered_def len)
  with num have n1: "numbered 0 (nodes ?b)" unfolding nb by (rule numbered_append)
  have n2: "length (nodes ?b) = node_id_counter ?b" by (simp add: nb cb len)
  have n3: "\<forall>e\<in>set (connections ?b). fst e \<in> id_range 0 (node_id_counter ?b) \<and>
                                  snd e \<in> id_range 0 (node_id_counter ?b)"
  proof
    fix e assume "e \<in> set (connections ?b)"
    then consider (old) "e \<in> set (connections b)"
      | (join) ce where "ce \<in> set (conditional_end_nodes b)" "e = (node_id ce, mk_id ?k)"
      | (prev) p where "prev_node b = Some p" "e = (node_id p, mk_id ?k)"
      unfolding eb by (cases "prev_node b") (auto split: if_splits)
    then show "fst e \<in> id_range 0 (node_id_counter ?b) \<and> snd e \<in> id_range 0 (node_id_counter ?b)"
    proof cases
      case old
      with es up show ?thesis by (simp add: cb)
    next
      case join
      with ce up new show ?thesis by (simp add: cb)
    next
      case prev
      with pv up new show ?thesis by (simp add: cb)
    qed
  qed
  from new have n4: "\<forall>p. prev_node ?b = Some p \<longrightarrow> node_id p \<in> id_range 0 (node_id_counter ?b)"
    by (simp add: pb cb)
  have n5: "\<forall>ce\<in>set (conditional_end_nodes ?b). node_id ce \<in> id_range 0 (node_id_counter ?b)"
    by (simp add: ceb)
  from n1 n2 n3 n4 n5 show ?thesis unfolding builder_ok_def by blast
qed

lemma builder_ok_add_lines: "builder_ok b \<Longrightarrow> builder_ok (foldl (add_line cfg) b ls)"
  by (induction ls arbitrary: b) (simp_all add: builder_ok_add_line)

text \<open>The step for a conditional item, with the index checks discharged.\<close>

lemma add_conditional_empty:
  "add_conditional cfg b [] =
     Inr (b\<lparr>nodes := nodes b, connections := connections b,
            conditional_end_nodes := conditional_end_nodes b,
            node_id_counter := node_id_counter b, prev_node := None\<rparr>)"
  by (simp add: add_conditional_def parse_conditional_block_def opt_list_def split: option.split)

lemma add_conditional_pure:
  assumes "ls \<noteq> []"
    and "cond_block cfg ls (node_id_counter b) = (c_nodes, c_conns, l_true, l_false)"
  shows "add_conditional cfg b ls =
     Inr (b\<lparr>nodes := nodes b @ c_nodes,
            connections := connections b @ c_conns @
              (case prev_node b of Some p \<Rightarrow> [(node_id p, node_id (hd c_nodes))] | None \<Rightarrow> []),
            conditional_end_nodes := conditional_end_nodes b @ opt_list l_true @ opt_list l_false,
            node_id_counter := node_id_counter b + length c_nodes,
            prev_node := None\<rparr>)"
proof -
  from cond_block_shape(1) [OF assms(2)] have ne: "c_nodes \<noteq> []" .
  then have ix: "index c_nodes 0 = Inr (hd c_nodes)"
    by (simp add: index_def hd_conv_nth)
  show ?thesis
    unfolding add_conditional_def parse_conditional_block_pure [OF assms(1)] assms(2)
    using ne ix by (simp split: option.split)
qed

lemma builder_ok_add_conditional:
  assumes "builder_ok b"
  shows "\<exists>b'. add_conditional cfg b ls = Inr b' \<and> builder_ok b'"
proof (cases "ls = []")
  case True
  from assms have "builder_ok (b\<lparr>nodes := nodes b, connections := connections b,
            conditional_end_nodes := conditional_end_nodes b,
            node_id_counter := node_id_counter b, prev_node := None\<rparr>)"
    by (simp add: builder_ok_def)
  with True show ?thesis by (simp add: add_conditional_empty)
next
  case False
  let ?k = "node_id_counter b"
  obtain c_nodes c_conns l_true l_false
    where cb: "cond_block cfg ls ?k = (c_nodes, c_conns, l_true, l_false)"
    by (metis prod_cases4)
  note sh = cond_block_shape [OF cb]
  let ?m = "?k + length c_nodes"
  define b' where "b' = b\<lparr>nodes := nodes b @ c_nodes,
            connections := connections b @ c_conns @
              (case prev_node b of Some p \<Rightarrow> [(node_id p, node_id (hd c_nodes))] | None \<Rightarrow> []),
            conditional_end_nodes := conditional_end_nodes b @ opt_list l_true @ opt_list l_false,
            node_id_counter := ?m,
            prev_node := None\<rparr>"
  have step: "add_conditional cfg b ls = Inr b'"
    unfolding b'_def by (rule add_conditional_pure [OF False cb])
  from assms have num: "numbered 0 (nodes b)" and len: "length (nodes b) = ?k"
    and es: "\<forall>e\<in>set (connections b). fst e \<in> id_range 0 ?k \<and> snd e \<in> id_range 0 ?k"
    and pv: "\<forall>p. prev_node b = Some p \<longrightarrow> node_id p \<in> id_range 0 ?k"
    and ce: "\<forall>ce\<in>set (conditional_end_nodes b). node_id ce \<in> id_range 0 ?k"
    by (simp_all add: builder_ok_def)
  have up: "x \<in> id_range 0 ?k \<Longrightarrow> x \<in> id_range 0 ?m" for x
    by (erule id_range_mono [rotated 2]) simp_all
  have up2: "x \<in> id_range ?k ?m \<Longrightarrow> x \<in> id_range 0 ?m" for x
    by (erule id_range_mono [rotated 2]) simp_all
  have up3: "x \<in> id_range (?k + 1) ?m \<Longrightarrow> x \<in> id_range 0 ?m" for x
    by (erule id_range_mono [rotated 2]) simp_all
  from sh(1) have "hd c_nodes \<in> set c_nodes" by simp
  from numbered_mem [OF sh(2) this] have hd: "node_id (hd c_nodes) \<in> id_range 0 ?m"
    by (rule up2)
  from sh(2) len have "numbered (0 + length (nodes b)) c_nodes" by simp
  with num have n1: "numbered 0 (nodes b')"
    unfolding b'_def by (simp add: numbered_append)
  have n2: "length (nodes b') = node_id_counter b'" by (simp add: b'_def len)
  have n3: "\<forall>e\<in>set (connections b'). fst e \<in> id_range 0 (node_id_counter b') \<and>
                                  snd e \<in> id_range 0 (node_id_counter b')"
  proof
    fix e assume "e \<in> set (connections b')"
    then consider (old) "e \<in> set (connections b)" | (blk) "e \<in> set c_conns"
      | (prev) p where "prev_node b = Some p" "e = (node_id p, node_id (hd c_nodes))"
      unfolding b'_def by (cases "prev_node b") auto
    then show "fst e \<in> id_range 0 (node_id_counter b') \<and> snd e \<in> id_range 0 (node_id_counter b')"
    proof cases
      case old
      with es up show ?thesis by (simp add: b'_def)
    next
      case blk
      with sh(3) have "fst e \<in> id_range ?k ?m" "snd e \<in> id_range (?k + 1) ?m" by simp_all
      then show ?thesis using up2 up3 by (simp add: b'_def)
    next
      case prev
      with pv up hd show ?thesis by (simp add: b'_def)
    qed
  qed
  have n4: "\<forall>p. prev_node b' = Some p \<longrightarrow> node_id p \<in> id_range 0 (node_id_counter b')"
    by (simp add: b'_def)
  from sh(4) obtain t f where tf: "l_true = Some t" "l_false = Some f"
    "node_id t \<in> id_range ?k ?m" "node_id f \<in> id_range ?k ?m" by blast
  have n5: "\<forall>ce\<in>set (conditional_end_nodes b'). node_id ce \<in> id_range 0 (node_id_counter b')"
  proof
    fix x assume "x \<in> set (conditional_end_nodes b')"
    then consider "x \<in> set (conditional_end_nodes b)" | "x = t" | "x = f"
      unfolding b'_def using tf by (auto simp: opt_list_def)
    then show "node_id x \<in> id_range 0 (node_id_counter b')"
    proof cases
      case 1
      with ce up show ?thesis by (simp add: b'_def)
    next
      case 2
      with tf(3) up2 show ?thesis by (simp add: b'_def)
    next
      case 3
      with tf(4) up2 show ?thesis by (simp add: b'_def)
    qed
  qed
  from n1 n2 n3 n4 n5 have "builder_ok b'" unfolding builder_ok_def by blast
  with step show ?thesis by blast
qed

lemma builder_ok_process_item:
  "builder_ok b \<Longrightarrow> \<exists>b'. process_item cfg b it = Inr b' \<and> builder_ok b'"
  by (cases it) (simp_all add: process_item_def builder_ok_add_conditional builder_ok_add_lines)

lemma builder_ok_process_items:
  "builder_ok b \<Longrightarrow> \<exists>b'. process_items cfg b its = Inr b' \<and> builder_ok b'"
proof (induction its arbitrary: b)
  case Nil
  then show ?case by simp
next
  case (Cons it its)
  from builder_ok_process_item [OF Cons.prems, of cfg it]
  obtain b1 where s: "process_item cfg b it = Inr b1" and i: "builder_ok b1" by blast
  from Cons.IH [OF i] s show ?case by simp
qed

lemma build_graph_inv:
  "\<exists>b. build_graph cfg lines = Inr (nodes b, connections b) \<and> builder_ok b"
proof -
  from builder_ok_process_items [OF builder_ok_init, of cfg "groups lines"]
  obtain b where "process_items cfg init_builder (groups lines) = Inr b" and "builder_ok b" by blast
  then show ?thesis
    using group_lines_pure [of lines 0 "[]"] by (auto simp: build_graph_def)
qed

section \<open>A conditional block that is never closed\<close>

lemma space_not_e: "is_space c \<Longrightarrow> lower_char c \<noteq> CHR ''e''"
proof
  assume sp: "is_space c" and lc: "lower_char c = CHR ''e''"
  from sp have "lower_char c = c"
    by (auto simp: is_space_def lower_char_def Let_def)
  with lc have "c = CHR ''e''" by simp
  with sp show False by (simp add: is_space_def)
qed

lemma endif_not_trigger:
  assumes "lower s = ''endif''"
  shows "\<not> is_trigger s"
proof -
  from assms have len: "length s = 5" by (auto simp: lower_def dest: arg_cong [where f = length])
  then obtain c1 c2 c3 c4 c5 where s: "s = [c1, c2, c3, c4, c5]"
    by (auto simp: length_Suc_conv eval_nat_numeral)
  from assms s have l1: "lower_char c1 = CHR ''e''" and l2: "lower_char c2 = CHR ''n''"
    by (simp_all add: lower_def)
  from l1 have ns: "\<not> is_space c1" using space_not_e by blast
  have a: "\<not> re_if s"
    using ns l1 l2 by (simp add: re_if_def matches_def s ws0_def lit_def lower_def)
  have b: "\<not> contains ''If Show Variant'' s"
    by (simp add: s startswith_def)
  from a b show ?thesis by (simp add: is_trigger_def)
qed

definition is_endif :: "string \<Rightarrow> bool" where
  "is_endif raw \<longleftrightarrow> lower (strip raw) = ''endif''"

lemma take_block_no_endif:
  "\<forall>x\<in>set xs. \<not> is_endif x \<Longrightarrow> take_block xs = (map strip xs, [])"
  by (induction xs) (simp_all add: is_endif_def)

lemma take_block_no_endif_snoc:
  "\<forall>x\<in>set xs. \<not> is_endif x \<Longrightarrow> is_endif e \<Longrightarrow>
   take_block (xs @ [e]) = (map strip (xs @ [e]), [])"
  by (induction xs) (simp_all add: is_endif_def)

lemma take_block_split:
  "\<exists>x\<in>set xs. is_endif x \<Longrightarrow>
   \<exists>u e. xs = u @ e # snd (take_block xs) \<and> is_endif e \<and> (\<forall>x\<in>set u. \<not> is_endif x) \<and>
         fst (take_block xs) = map strip (u @ [e]) \<and>
         (\<forall>z. take_block (xs @ z) = (fst (take_block xs), snd (take_block xs) @ z))"
proof (induction xs)
  case Nil
  then show ?case by simp
next
  case (Cons raw rest)
  show ?case
  proof (cases "is_endif raw")
    case True
    then show ?thesis
      by (intro exI [of _ "[]"] exI [of _ raw]) (simp add: is_endif_def)
  next
    case False
    with Cons.prems have "\<exists>x\<in>set rest. is_endif x" by simp
    from Cons.IH [OF this] obtain u e where
      r: "rest = u @ e # snd (take_block rest)" and e: "is_endif e"
      and u: "\<forall>x\<in>set u. \<not> is_endif x" and f: "fst (take_block rest) = map strip (u @ [e])"
      and z: "\<forall>z. take_block (rest @ z) = (fst (take_block rest), snd (take_block rest) @ z)"
      by blast
    from False r have 1: "raw # rest = (raw # u) @ e # snd (take_block (raw # rest))"
      by (simp add: is_endif_def)
    from False u have 2: "\<forall>x\<in>set (raw # u). \<not> is_endif x" by simp
    from False f have 3: "fst (take_block (raw # rest)) = map strip ((raw # u) @ [e])"
      by (simp add: is_endif_def)
    from False z have 4: "\<forall>z. take_block ((raw # rest) @ z) =
        (fst (take_block (raw # rest)), snd (take_block (raw # rest)) @ z)"
      by (simp add: is_endif_def)
    show ?thesis
      by (intro exI [of _ "raw # u"] exI [of _ e] conjI) (fact 1 e 2 3 4)+
  qed
qed

lemma split_position:
  assumes "u @ e # r = p @ t # q" and "e \<noteq> t" and "e \<notin> set q"
  shows "\<exists>w. p = u @ e # w \<and> r = w @ t # q"
  using assms
proof (induction u arbitrary: p)
  case Nil
  then show ?case by (cases p) auto
next
  case (Cons a u)
  show ?case
  proof (cases p)
    case Nil
    with Cons.prems show ?thesis by auto
  next
    case (Cons b p')
    with Cons.prems have "u @ e # r = p' @ t # q" and "a = b" by simp_all
    from Cons.IH [OF this(1) Cons.prems(2,3)] obtain w where "p' = u @ e # w" "r = w @ t # q"
      by blast
    with Cons \<open>a = b\<close> show ?thesis by simp
  qed
qed

text \<open>
  A trigger line with no \<^verbatim>\<open>endif\<close> after it: the last group is a conditional block that
  starts at a trigger line at or before it and runs to the end of the section; a closing
  \<^verbatim>\<open>endif\<close> appended to the section only joins that block.
\<close>

lemma groups_unterminated:
  assumes "xs = pre @ t # post" and "is_trigger (strip t)" and "\<forall>x\<in>set post. \<not> is_endif x"
    and "is_endif e"
  shows "\<exists>items zs ys. xs = zs @ ys \<and> length zs \<le> length pre \<and> ys \<noteq> [] \<and>
           is_trigger (strip (hd ys)) \<and>
           groups xs = items @ [Conditional (map strip ys)] \<and>
           groups (xs @ [e]) = items @ [Conditional (map strip (ys @ [e]))]"
  using assms
proof (induction xs arbitrary: pre rule: groups.induct)
  case 1
  then show ?case by simp
next
  case (2 raw rest)
  note prems = "2.prems"
  have tne: "\<not> is_endif t"
    using endif_not_trigger [of "strip t"] prems(2) by (auto simp: is_endif_def)
  show ?case
  proof (cases "is_trigger (strip raw)")
    case trig: True
    show ?thesis
    proof (cases "\<exists>x\<in>set rest. is_endif x")
      case False
      then have ne: "\<forall>x\<in>set rest. \<not> is_endif x" by simp
      from trig take_block_no_endif [OF ne]
      have g: "groups (raw # rest) = [] @ [Conditional (map strip (raw # rest))]" by simp
      from trig take_block_no_endif_snoc [OF ne prems(4)]
      have g': "groups ((raw # rest) @ [e]) = [] @ [Conditional (map strip ((raw # rest) @ [e]))]"
        by simp
      have "raw # rest = [] @ (raw # rest)" "length ([] :: string list) \<le> length pre"
        "raw # rest \<noteq> []" "is_trigger (strip (hd (raw # rest)))"
        using trig by simp_all
      with g g' show ?thesis
        by (intro exI [of _ "[]"] exI [of _ "raw # rest"] conjI) assumption+
    next
      case True
      from take_block_split [OF True] obtain u d where
        r: "rest = u @ d # snd (take_block rest)" and d: "is_endif d"
        and u: "\<forall>x\<in>set u. \<not> is_endif x" and f: "fst (take_block rest) = map strip (u @ [d])"
        and z: "\<forall>z. take_block (rest @ z) = (fst (take_block rest), snd (take_block rest) @ z)"
        by blast
      let ?r = "snd (take_block rest)"
      from True prems(1,3) tne obtain pre' where pre: "pre = raw # pre'" and rest: "rest = pre' @ t # post"
        by (cases pre) auto
      from d tne have dt: "d \<noteq> t" by auto
      from d prems(3) have dq: "d \<notin> set post" by auto
      from r rest have eq: "u @ d # ?r = pre' @ t # post" by simp
      from split_position [OF eq dt dq]
      obtain w where w: "pre' = u @ d # w" and rw: "?r = w @ t # post"
        by (elim exE conjE)
      from "2.IH"(1) [OF trig rw prems(2,3,4)] obtain items zs ys where
        a: "?r = zs @ ys" and b: "length zs \<le> length w" and c: "ys \<noteq> []"
        and c': "is_trigger (strip (hd ys))"
        and g: "groups ?r = items @ [Conditional (map strip ys)]"
        and g': "groups (?r @ [e]) = items @ [Conditional (map strip (ys @ [e]))]"
        by blast
      let ?c = "Conditional (strip raw # fst (take_block rest))"
      from trig g have 1: "groups (raw # rest) = (?c # items) @ [Conditional (map strip ys)]"
        by simp
      from trig z g' have 2: "groups ((raw # rest) @ [e]) = (?c # items) @ [Conditional (map strip (ys @ [e]))]"
        by simp
      from r a have 3: "raw # rest = (raw # u @ d # zs) @ ys" by simp
      from b pre w have 4: "length (raw # u @ d # zs) \<le> length pre" by simp
      show ?thesis
        by (intro exI [of _ "?c # items"] exI [of _ "raw # u @ d # zs"] exI [of _ ys] conjI)
          (fact 1 2 3 4 c c')+
    qed
  next
    case False
    with prems(1,2) obtain pre' where pre: "pre = raw # pre'" and rest: "rest = pre' @ t # post"
      by (cases pre) auto
    from "2.IH"(2) [OF False rest prems(2,3,4)] obtain items zs ys where
      a: "rest = zs @ ys" and b: "length zs \<le> length pre'" and c: "ys \<noteq> []"
      and c': "is_trigger (strip (hd ys))"
      and g: "groups rest = items @ [Conditional (map strip ys)]"
      and g': "groups (rest @ [e]) = items @ [Conditional (map strip (ys @ [e]))]"
      by blast
    let ?n = "Normal [strip raw]"
    from False g have 1: "groups (raw # rest) = (?n # items) @ [Conditional (map strip ys)]"
      by simp
    from False g' have 2: "groups ((raw # rest) @ [e]) = (?n # items) @ [Conditional (map strip (ys @ [e]))]"
      by simp
    from a have 3: "raw # rest = (raw # zs) @ ys" by simp
    from b pre have 4: "length (raw # zs) \<le> length pre" by simp
    show ?thesis
      by (intro exI [of _ "?n # items"] exI [of _ "raw # zs"] exI [of _ ys] conjI)
        (fact 1 2 3 4 c c')+
  qed
qed

lemma route_endif_snoc: "is_endif e \<Longrightarrow> route (xs @ [e]) r = route xs r"
proof (induction xs arbitrary: r)
  case Nil
  then show ?case by (simp add: is_endif_def Let_def)
next
  case (Cons a xs)
  then show ?case by (simp add: Let_def)
qed

lemma cond_block_endif_snoc:
  "is_endif e \<Longrightarrow> blk \<noteq> [] \<Longrightarrow> cond_block cfg (blk @ [e]) s = cond_block cfg blk s"
  by (simp add: cond_block_def route_endif_snoc)

lemma add_conditional_endif_snoc:
  assumes "is_endif e" and "blk \<noteq> []"
  shows "add_conditional cfg b (blk @ [e]) = add_conditional cfg b blk"
proof -
  from assms(2) have ne: "blk @ [e] \<noteq> []" by simp
  have "parse_conditional_block cfg (blk @ [e]) (node_id_counter b) =
        parse_conditional_block cfg blk (node_id_counter b)"
    by (simp only: parse_conditional_block_pure [OF ne] parse_conditional_block_pure [OF assms(2)]
        cond_block_endif_snoc [OF assms])
  then show ?thesis
    unfolding add_conditional_def by (simp only:)
qed

lemma process_items_snoc:
  "process_items cfg b (its @ [it]) =
     (case process_items cfg b its of Inl e \<Rightarrow> Inl e | Inr b' \<Rightarrow> process_item cfg b' it)"
proof (induction its arbitrary: b)
  case Nil
  show ?case by (simp split: sum.split)
next
  case (Cons a its)
  show ?case
  proof (cases "process_item cfg b a")
    case (Inl e)
    then show ?thesis by simp
  next
    case (Inr b1)
    with Cons [of b1] show ?thesis by simp
  qed
qed

lemma endif_literal: "strip ''endif'' = ''endif''" "lower ''endif'' = ''endif''"
  by code_simp+

lemma is_endif_literal: "is_endif ''endif''"
  by (simp add: is_endif_def endif_literal)

lemma build_graph_groups:
  "build_graph cfg lines =
     (case process_items cfg init_builder (groups lines) of
        Inl e \<Rightarrow> Inl e
      | Inr b \<Rightarrow> Inr (nodes b, connections b))"
  by (simp add: build_graph_def group_lines_pure)

lemma unterminated_example_length: "(1::nat) < length [''A'', ''if X'', ''true:'', ''B'']" by simp
lemma unterminated_example_trigger: "is_trigger (strip ([''A'', ''if X'', ''true:'', ''B''] ! 1))" by code_simp
lemma unterminated_example_no_endif: "\<forall>j. 1 < j \<and> j < length [''A'', ''if X'', ''true:'', ''B''] \<longrightarrow>
    lower (strip ([''A'', ''if X'', ''true:'', ''B''] ! j)) \<noteq> ''endif''"
proof (intro allI impI)
  fix j :: nat assume "1 < j \<and> j < length [''A'', ''if X'', ''true:'', ''B'']"
  then have "j = 2 \<or> j = 3" by auto
  moreover have "lower (strip ''true:'') \<noteq> ''endif''" "lower (strip ''B'') \<noteq> ''endif''"
    by code_simp+
  ultimately show "lower (strip ([''A'', ''if X'', ''true:'', ''B''] ! j)) \<noteq> ''endif''"
    by auto
qed

section \<open>How the builder grows\<close>

text \<open>
  Every step of the main loop only appends nodes and edges, and the target of each edge it
  appends is the id of a node it creates in that step.
\<close>

definition extends :: "builder \<Rightarrow> builder \<Rightarrow> bool" where
  "extends b b' \<longleftrightarrow>
     node_id_counter b \<le> node_id_counter b' \<and>
     (\<exists>more. nodes b' = nodes b @ more) \<and>
     (\<exists>new. connections b' = connections b @ new \<and>
        (\<forall>e\<in>set new. snd e \<in> id_range (node_id_counter b) (node_id_counter b')))"

lemma extends_refl: "extends b b"
  by (simp add: extends_def)

lemma extends_trans:
  assumes "extends a b" and "extends b c"
  shows "extends a c"
proof -
  from assms(1) obtain m1 n1 where ab: "node_id_counter a \<le> node_id_counter b"
    "nodes b = nodes a @ m1" "connections b = connections a @ n1"
    "\<forall>e\<in>set n1. snd e \<in> id_range (node_id_counter a) (node_id_counter b)"
    unfolding extends_def by (elim exE conjE)
  from assms(2) obtain m2 n2 where bc: "node_id_counter b \<le> node_id_counter c"
    "nodes c = nodes b @ m2" "connections c = connections b @ n2"
    "\<forall>e\<in>set n2. snd e \<in> id_range (node_id_counter b) (node_id_counter c)"
    unfolding extends_def by (elim exE conjE)
  have 1: "node_id_counter a \<le> node_id_counter c" using ab(1) bc(1) by simp
  have 2: "nodes c = nodes a @ (m1 @ m2)" using ab(2) bc(2) by simp
  have 3: "connections c = connections a @ (n1 @ n2)" using ab(3) bc(3) by simp
  have 4: "\<forall>e\<in>set (n1 @ n2). snd e \<in> id_range (node_id_counter a) (node_id_counter c)"
  proof
    fix e assume "e \<in> set (n1 @ n2)"
    then consider "e \<in> set n1" | "e \<in> set n2" by auto
    then show "snd e \<in> id_range (node_id_counter a) (node_id_counter c)"
    proof cases
      case 1
      with ab(4) have "snd e \<in> id_range (node_id_counter a) (node_id_counter b)" by simp
      then show ?thesis by (rule id_range_mono [rotated 2]) (simp_all add: bc(1))
    next
      case 2
      with bc(4) have "snd e \<in> id_range (node_id_counter b) (node_id_counter c)" by simp
      then show ?thesis by (rule id_range_mono [rotated 2]) (simp_all add: ab(1))
    qed
  qed
  show ?thesis unfolding extends_def
    using 1 2 3 4 by blast
qed

lemma extends_add_line: "extends b (add_line cfg b line)"
proof (cases "ignored cfg line")
  case True
  then show ?thesis by (simp add: add_line_def extends_refl)
next
  case False
  let ?k = "node_id_counter b"
  let ?b = "add_line cfg b line"
  let ?new = "map (\<lambda>ce. (node_id ce, mk_id ?k)) (conditional_end_nodes b)
                 @ (case prev_node b of
                      Some p \<Rightarrow> if conditional_end_nodes b = [] then [(node_id p, mk_id ?k)] else []
                    | None \<Rightarrow> [])"
  from False have cb: "node_id_counter ?b = ?k + 1"
    and nb: "nodes ?b = nodes b @ [\<lparr>node_id = mk_id ?k, node_type = classify_main cfg line, content = line\<rparr>]"
    and eb: "connections ?b = connections b @ ?new"
    by (simp_all add: add_line_def Let_def split: option.split)
  have "\<forall>e\<in>set ?new. snd e = mk_id ?k"
    by (cases "prev_node b") auto
  then have t: "\<forall>e\<in>set ?new. snd e \<in> id_range ?k (node_id_counter ?b)"
    by (simp add: cb id_range_def)
  show ?thesis unfolding extends_def
    using cb nb eb t by (intro conjI exI [of _ ?new]) simp_all
qed

lemma extends_add_lines: "extends b (foldl (add_line cfg) b ls)"
proof (induction ls arbitrary: b)
  case Nil
  show ?case by (simp add: extends_refl)
next
  case (Cons l ls)
  from extends_trans [OF extends_add_line Cons [of "add_line cfg b l"]]
  show ?case by simp
qed

lemma extends_add_conditional:
  assumes "add_conditional cfg b ls = Inr b'"
  shows "extends b b'"
proof (cases "ls = []")
  case True
  with assms have "b' = b\<lparr>prev_node := None\<rparr>"
    by (simp add: add_conditional_empty)
  then show ?thesis by (simp add: extends_def)
next
  case False
  let ?k = "node_id_counter b"
  obtain c_nodes c_conns l_true l_false
    where cb: "cond_block cfg ls ?k = (c_nodes, c_conns, l_true, l_false)"
    by (metis prod_cases4)
  note sh = cond_block_shape [OF cb]
  let ?m = "?k + length c_nodes"
  let ?new = "c_conns @ (case prev_node b of Some p \<Rightarrow> [(node_id p, node_id (hd c_nodes))] | None \<Rightarrow> [])"
  from add_conditional_pure [OF False cb] assms
  have b': "b' = b\<lparr>nodes := nodes b @ c_nodes,
            connections := connections b @ ?new,
            conditional_end_nodes := conditional_end_nodes b @ opt_list l_true @ opt_list l_false,
            node_id_counter := ?m,
            prev_node := None\<rparr>" by simp
  from sh(1) have "hd c_nodes \<in> set c_nodes" by simp
  from numbered_mem [OF sh(2) this] have hd: "node_id (hd c_nodes) \<in> id_range ?k ?m" .
  have t: "\<forall>e\<in>set ?new. snd e \<in> id_range ?k ?m"
  proof
    fix e assume "e \<in> set ?new"
    then consider "e \<in> set c_conns" | "snd e = node_id (hd c_nodes)"
      by (cases "prev_node b") auto
    then show "snd e \<in> id_range ?k ?m"
    proof cases
      case 1
      with sh(3) have "snd e \<in> id_range (?k + 1) ?m" by simp
      then show ?thesis by (rule id_range_mono [rotated 2]) simp_all
    next
      case 2
      with hd show ?thesis by simp
    qed
  qed
  show ?thesis unfolding extends_def b'
    using t by (intro conjI exI [of _ ?new] exI [of _ c_nodes]) simp_all
qed

lemma extends_process_item:
  "process_item cfg b it = Inr b' \<Longrightarrow> extends b b'"
  by (cases it) (auto simp: process_item_def extends_add_conditional extends_add_lines)

lemma extends_process_items:
  "process_items cfg b its = Inr b' \<Longrightarrow> extends b b'"
proof (induction its arbitrary: b)
  case Nil
  then show ?case by (simp add: extends_refl)
next
  case (Cons it its)
  from Cons.prems obtain b1 where 1: "process_item cfg b it = Inr b1"
    and 2: "process_items cfg b1 its = Inr b'"
    by (cases "process_item cfg b it") simp_all
  from extends_trans [OF extends_process_item [OF 1] Cons.IH [OF 2]] show ?case .
qed

lemma process_items_append:
  "process_items cfg b (xs @ ys) =
     (case process_items cfg b xs of Inl e \<Rightarrow> Inl e | Inr b' \<Rightarrow> process_items cfg b' ys)"
proof (induction xs arbitrary: b)
  case Nil
  show ?case by simp
next
  case (Cons a xs)
  show ?case
  proof (cases "process_item cfg b a")
    case (Inl e)
    then show ?thesis by simp
  next
    case (Inr b1)
    with Cons [of b1] show ?thesis by simp
  qed
qed

lemma process_ignored:
  "list_all (ignored cfg) ls \<Longrightarrow> process_items cfg b (map (\<lambda>l. Normal [l]) ls) = Inr b"
  by (induction ls) (simp_all add: process_item_def add_line_def)

lemma groups_conditional_nonempty:
  "Conditional blk \<in> set (groups xs) \<Longrightarrow> blk \<noteq> []"
  by (induction xs rule: groups.induct) (auto split: if_splits)

lemma mk_id_not_in_range: "k < a \<or> b \<le> k \<Longrightarrow> mk_id k \<notin> id_range a b"
  by (auto simp: id_range_def mk_id_inj)

lemma add_line_kept:
  assumes "\<not> ignored cfg l"
  shows "\<exists>n. nodes (add_line cfg b l) = nodes b @ [n] \<and> content n = l \<and>
             node_id n = mk_id (node_id_counter b) \<and>
             (\<forall>j\<in>set (conditional_end_nodes b).
                 (node_id j, node_id n) \<in> set (connections (add_line cfg b l)))"
  using assms
  by (intro exI [of _ "\<lparr>node_id = mk_id (node_id_counter b), node_type = classify_main cfg l, content = l\<rparr>"])
     (simp add: add_line_def Let_def)

text \<open>
  An item that puts no node on the main line: a conditional run, or a normal item all of
  whose lines match an ignore pattern.
\<close>

definition adds_no_main_node :: "config \<Rightarrow> item \<Rightarrow> bool" where
  "adds_no_main_node cfg it =
     (case it of
        Conditional item_lines \<Rightarrow> True
      | Normal item_lines \<Rightarrow> list_all (ignored cfg) item_lines)"

lemma add_lines_ignored: "list_all (ignored cfg) ls \<Longrightarrow> foldl (add_line cfg) b ls = b"
  by (induction ls) (simp_all add: add_line_def)

lemma add_conditional_join_sources:
  assumes "add_conditional cfg b ls = Inr b'"
  shows "\<exists>more. conditional_end_nodes b' = conditional_end_nodes b @ more"
proof (cases "ls = []")
  case True
  with assms have "b' = b\<lparr>prev_node := None\<rparr>"
    by (simp add: add_conditional_empty)
  then show ?thesis by simp
next
  case False
  obtain c_nodes c_conns l_true l_false
    where cb: "cond_block cfg ls (node_id_counter b) = (c_nodes, c_conns, l_true, l_false)"
    by (metis prod_cases4)
  from add_conditional_pure [OF False cb] assms
  have "conditional_end_nodes b' = conditional_end_nodes b @ (opt_list l_true @ opt_list l_false)"
    by auto
  then show ?thesis by (rule exI)
qed

lemma process_pending_join_sources:
  assumes "list_all (adds_no_main_node cfg) pending"
    and "process_items cfg b pending = Inr b'"
  shows "\<exists>more. conditional_end_nodes b' = conditional_end_nodes b @ more"
  using assms
proof (induction pending arbitrary: b)
  case Nil
  then show ?case by simp
next
  case (Cons it pending)
  from Cons.prems(2) obtain b1 where 1: "process_item cfg b it = Inr b1"
    and 2: "process_items cfg b1 pending = Inr b'"
    by (cases "process_item cfg b it") simp_all
  from Cons.prems(1) have it: "adds_no_main_node cfg it"
    and rest: "list_all (adds_no_main_node cfg) pending" by simp_all
  have "\<exists>more. conditional_end_nodes b1 = conditional_end_nodes b @ more"
  proof (cases it)
    case (Conditional item_lines)
    with 1 have "add_conditional cfg b item_lines = Inr b1" by (simp add: process_item_def)
    then show ?thesis by (rule add_conditional_join_sources)
  next
    case (Normal item_lines)
    with it have "list_all (ignored cfg) item_lines" by (simp add: adds_no_main_node_def)
    with 1 Normal have "b1 = b" by (simp add: process_item_def add_lines_ignored)
    then show ?thesis by simp
  qed
  then obtain m1 where m1: "conditional_end_nodes b1 = conditional_end_nodes b @ m1" by (elim exE)
  from Cons.IH [OF rest 2] obtain m2 where "conditional_end_nodes b' = conditional_end_nodes b1 @ m2"
    by (elim exE)
  with m1 have "conditional_end_nodes b' = conditional_end_nodes b @ (m1 @ m2)" by simp
  then show ?case by (rule exI)
qed

definition three_runs :: "string list" where
  "three_runs = [''if X'', ''true:'', ''A'', ''endif'', '''',
                 ''if Y'', ''false:'', ''B'', ''endif'',
                 ''if Z'', ''endif'', ''C'']"

lemma three_runs_groups:
  "group_lines three_runs 0 [] =
     Inr ([] @ Conditional [''if X'', ''true:'', ''A'', ''endif'']
             # map (\<lambda>l. Normal [l]) [''''] @
             Conditional [''if Y'', ''false:'', ''B'', ''endif'']
             # [Conditional [''if Z'', ''endif''], Normal [''C'']])"
  by code_simp

lemma three_runs_skipped: "list_all (ignored default_config) ['''']"
  by code_simp

lemma three_runs_graph:
  "build_graph default_config three_runs =
     Inr ([\<lparr>node_id = ''n_0'', node_type = ''if_show_variant'', content = ''if X''\<rparr>,
           \<lparr>node_id = ''n_1'', node_type = ''dialogue'', content = ''A''\<rparr>,
           \<lparr>node_id = ''n_2'', node_type = ''if_show_variant'', content = ''if Y''\<rparr>,
           \<lparr>node_id = ''n_3'', node_type = ''dialogue'', content = ''B''\<rparr>,
           \<lparr>node_id = ''n_4'', node_type = ''if_show_variant'', content = ''if Z''\<rparr>,
           \<lparr>node_id = ''n_5'', node_type = ''dialogue'', content = ''C''\<rparr>],
          [(''n_0'', ''n_1''), (''n_2'', ''n_3''),
           (''n_1'', ''n_5''), (''n_0'', ''n_5''), (''n_2'', ''n_5''), (''n_3'', ''n_5''),
           (''n_4'', ''n_5''), (''n_4'', ''n_5'')])"
  by code_simp

section \<open>The section splitter\<close>

text \<open>
  \<^verbatim>\<open>parse_script_content\<close> splits the document at \<^verbatim>\<open>"\\n---\\n"\<close>, strips every block,
  skips the empty ones and gives each remaining block a tab: its name and its graph. The
  name comes from \<^verbatim>\<open>re.search(r'^name:\\s*(.+)', section, re.MULTILINE | re.IGNORECASE)\<close>.
  \<open>name_at\<close> is one match attempt at the start of a line and returns group 1:
  \<^verbatim>\<open>\\s*\<close> first takes all the white space, and \<^verbatim>\<open>.+\<close> then takes the rest of the line;
  when nothing but white space is left, \<^verbatim>\<open>\\s*\<close> gives characters back until
  \<^verbatim>\<open>.\<close> finds one that is not a newline. \<open>name_search\<close> tries the line starts from
  the left. A tab is modelled by the triple of the name, the nodes and the edges.
\<close>

definition separator :: string where
  "separator = [newline] @ ''---'' @ [newline]"

fun last_non_newline :: "string \<Rightarrow> string option" where
  "last_non_newline [] = None"
| "last_non_newline (c # cs) =
     (case last_non_newline cs of
        Some g \<Rightarrow> Some g
      | None \<Rightarrow> if c \<noteq> newline then Some (takeWhile (\<lambda>x. x \<noteq> newline) (c # cs)) else None)"

definition name_at :: "string \<Rightarrow> string option" where
  "name_at s =
     (case lit ''name:'' s of
        None \<Rightarrow> None
      | Some rest \<Rightarrow>
          (let after = dropWhile is_space rest
           in if after \<noteq> [] then Some (takeWhile (\<lambda>c. c \<noteq> newline) after)
              else last_non_newline rest))"

fun name_search :: "bool \<Rightarrow> string \<Rightarrow> string option" where
  "name_search line_start [] = (if line_start then name_at [] else None)"
| "name_search line_start (c # cs) =
     (case (if line_start then name_at (c # cs) else None) of
        Some g \<Rightarrow> Some g
      | None \<Rightarrow> name_search (c = newline) cs)"

definition section_name :: "nat \<Rightarrow> string \<Rightarrow> string" where
  "section_name i section =
     (case name_search True section of
        Some g \<Rightarrow> strip g
      | None \<Rightarrow> ''Section '' @ str_nat (i + 1))"

type_synonym tab = "string \<times> node list \<times> edge list"

fun parse_sections :: "config \<Rightarrow> nat \<Rightarrow> string list \<Rightarrow> error + tab list" where
  "parse_sections cfg i [] = Inr []"
| "parse_sections cfg i (raw # sections) =
     (let section = strip raw in
      if section = [] then parse_sections cfg (i + 1) sections
      else
        (case build_graph cfg (split section [newline]) of
           Inl e \<Rightarrow> Inl e
         | Inr (ns, es) \<Rightarrow>
             (case parse_sections cfg (i + 1) sections of
                Inl e \<Rightarrow> Inl e
              | Inr tabs \<Rightarrow> Inr ((section_name i section, ns, es) # tabs))))"

definition parse_script_content :: "config \<Rightarrow> string \<Rightarrow> error + tab list" where
  "parse_script_content cfg document = parse_sections cfg 0 (split document separator)"


definition kept_blocks :: "nat \<Rightarrow> string list \<Rightarrow> (nat \<times> string) list" where
  "kept_blocks i sections = filter (\<lambda>(j, raw). strip raw \<noteq> []) (enumerate i sections)"

lemma build_graph_total: "\<exists>ns es. build_graph cfg lines = Inr (ns, es)"
  using build_graph_inv [of cfg lines] by blast

lemma parse_sections_spec:
  "\<exists>tabs. parse_sections cfg i sections = Inr tabs \<and>
     map fst tabs = map (\<lambda>(j, raw). section_name j (strip raw)) (kept_blocks i sections) \<and>
     map (\<lambda>t. Inr (snd t)) tabs =
       map (\<lambda>(j, raw). build_graph cfg (split (strip raw) [newline])) (kept_blocks i sections)"
proof (induction sections arbitrary: i)
  case Nil
  show ?case by (simp add: kept_blocks_def)
next
  case (Cons raw sections)
  from Cons [of "i + 1"] obtain tabs where
    p: "parse_sections cfg (i + 1) sections = Inr tabs"
    and n: "map fst tabs = map (\<lambda>(j, raw). section_name j (strip raw)) (kept_blocks (i + 1) sections)"
    and g: "map (\<lambda>t. Inr (snd t)) tabs =
       map (\<lambda>(j, raw). build_graph cfg (split (strip raw) [newline])) (kept_blocks (i + 1) sections)"
    by (elim exE conjE)
  show ?case
  proof (cases "strip raw = []")
    case True
    then have "parse_sections cfg i (raw # sections) = Inr tabs"
      and "kept_blocks i (raw # sections) = kept_blocks (i + 1) sections"
      using p by (simp_all add: kept_blocks_def)
    with n g show ?thesis by simp
  next
    case False
    from build_graph_total [of cfg "split (strip raw) [newline]"]
    obtain ns es where b: "build_graph cfg (split (strip raw) [newline]) = Inr (ns, es)"
      by (elim exE)
    from False have k: "kept_blocks i (raw # sections) = (i, raw) # kept_blocks (i + 1) sections"
      by (simp add: kept_blocks_def)
    from False p b
    have "parse_sections cfg i (raw # sections) = Inr ((section_name i (strip raw), ns, es) # tabs)"
      by simp
    with n g b k show ?thesis by simp
  qed
qed

section \<open>Fold ranges\<close>

text \<open>
  The document is the list of its block texts, numbered from 0. \<open>wb\<close> is \<^verbatim>\<open>\b\<close> after a
  literal that ends in a letter: the text ends there or goes on with a character that is not
  a word character; \<open>eos\<close> is \<^verbatim>\<open>$\<close> after \<^verbatim>\<open>\s*\<close>. The two stacks are Python lists
  used with \<^verbatim>\<open>append\<close> and \<^verbatim>\<open>pop\<close>, so their top is the last element. The editor
  state kept here is the pair \<^verbatim>\<open>_fold_ranges\<close>, \<^verbatim>\<open>_folded\<close>;
  \<^verbatim>\<open>_apply_fold\<close> only changes which blocks of the document are visible and touches
  neither. \<^verbatim>\<open>compute_fold_ranges\<close> is connected to the signals \<^verbatim>\<open>textChanged\<close> and
  \<^verbatim>\<open>blockCountChanged\<close>, \<^verbatim>\<open>toggle_fold_at_line\<close> is what a click in the gutter calls.
\<close>

definition is_word :: "char \<Rightarrow> bool" where
  "is_word c = (let n = of_char c :: nat in
     (48 \<le> n \<and> n \<le> 57) \<or> (65 \<le> n \<and> n \<le> 90) \<or> n = 95 \<or> (97 \<le> n \<and> n \<le> 122) \<or>
     n = 170 \<or> n = 178 \<or> n = 179 \<or> n = 181 \<or> n = 185 \<or> n = 186 \<or>
     (188 \<le> n \<and> n \<le> 190) \<or> (192 \<le> n \<and> n \<le> 214) \<or> (216 \<le> n \<and> n \<le> 246) \<or>
     (248 \<le> n \<and> n \<le> 255))"

definition wb :: "string \<Rightarrow> string option" where
  "wb s = (case s of [] \<Rightarrow> Some [] | c # cs \<Rightarrow> if is_word c then None else Some s)"

definition eos :: "string \<Rightarrow> string option" where
  "eos s = (if s = [] then Some [] else None)"

definition re_function_start :: pattern where
  "re_function_start s \<longleftrightarrow>
     matches [ws0, lit ''function'', wb] s \<or> matches [ws0, lit ''call'', wb] s"

definition re_end :: pattern where
  "re_end = matches [ws0, lit ''end'', wb]"

definition re_if_show_variant :: pattern where
  "re_if_show_variant = matches [ws0, lit ''if'', ws1, lit ''show'', ws1, lit ''variant'', wb]"

definition re_endif :: pattern where
  "re_endif = matches [ws0, lit ''endif'', wb]"

definition re_name_header :: pattern where
  "re_name_header = matches [ws0, lit ''name'', ws0, lit '':'']"

definition re_separator :: pattern where
  "re_separator = matches [ws0, lit ''---'', ws0, eos]"

record fold_scan =
  ranges :: "nat \<rightharpoonup> nat"
  func_stack :: "(nat \<times> string) list"
  if_stack :: "(nat \<times> string) list"

definition init_scan :: fold_scan where
  "init_scan = \<lparr>ranges = Map.empty, func_stack = [], if_stack = []\<rparr>"

definition scan_function_start :: "nat \<Rightarrow> string \<Rightarrow> fold_scan \<Rightarrow> fold_scan" where
  "scan_function_start line_no text st =
     (if re_function_start text then st\<lparr>func_stack := func_stack st @ [(line_no, text)]\<rparr> else st)"

definition scan_function_end :: "nat \<Rightarrow> string \<Rightarrow> fold_scan \<Rightarrow> fold_scan" where
  "scan_function_end line_no text st =
     (if re_end text \<and> func_stack st \<noteq> []
      then st\<lparr>func_stack := butlast (func_stack st),
              ranges := (ranges st)(fst (last (func_stack st)) \<mapsto> line_no)\<rparr>
      else st)"

definition scan_if_start :: "nat \<Rightarrow> string \<Rightarrow> fold_scan \<Rightarrow> fold_scan" where
  "scan_if_start line_no text st =
     (if re_if_show_variant text then st\<lparr>if_stack := if_stack st @ [(line_no, text)]\<rparr> else st)"

definition scan_if_end :: "nat \<Rightarrow> string \<Rightarrow> fold_scan \<Rightarrow> fold_scan" where
  "scan_if_end line_no text st =
     (if re_endif text \<and> if_stack st \<noteq> []
      then st\<lparr>if_stack := butlast (if_stack st),
              ranges := (ranges st)(fst (last (if_stack st)) \<mapsto> line_no)\<rparr>
      else st)"

definition scan_name_header :: "nat \<Rightarrow> string \<Rightarrow> string list \<Rightarrow> fold_scan \<Rightarrow> fold_scan" where
  "scan_name_header line_no text following st =
     (if re_name_header text then
        (let end_line = line_no +
               length (takeWhile (\<lambda>next_text. \<not> (re_separator next_text \<or> re_name_header next_text))
                         following)
         in if end_line > line_no then st\<lparr>ranges := (ranges st)(line_no \<mapsto> end_line)\<rparr> else st)
      else st)"

fun scan_blocks :: "nat \<Rightarrow> string list \<Rightarrow> fold_scan \<Rightarrow> fold_scan" where
  "scan_blocks line_no [] st = st"
| "scan_blocks line_no (text # following) st =
     scan_blocks (line_no + 1) following
       (scan_name_header line_no text following
         (scan_if_end line_no text
           (scan_if_start line_no text
             (scan_function_end line_no text
               (scan_function_start line_no text st)))))"

record editor =
  fold_ranges :: "nat \<rightharpoonup> nat"
  folded :: "nat set"

definition init_editor :: editor where
  "init_editor = \<lparr>fold_ranges = Map.empty, folded = {}\<rparr>"

definition compute_fold_ranges :: "string list \<Rightarrow> editor \<Rightarrow> editor" where
  "compute_fold_ranges doc ed =
     (let new_ranges = ranges (scan_blocks 0 doc init_scan)
      in \<lparr>fold_ranges = new_ranges,
          folded = Set.filter (\<lambda>s. new_ranges s \<noteq> None) (folded ed)\<rparr>)"

definition toggle_fold_at_line :: "nat \<Rightarrow> editor \<Rightarrow> editor" where
  "toggle_fold_at_line block_number ed =
     (if fold_ranges ed block_number = None then ed
      else if block_number \<in> folded ed then ed\<lparr>folded := folded ed - {block_number}\<rparr>
      else ed\<lparr>folded := insert block_number (folded ed)\<rparr>)"

datatype event = Text_changed "string list" | Gutter_click nat

fun handle :: "editor \<Rightarrow> event \<Rightarrow> editor" where
  "handle ed (Text_changed doc) = compute_fold_ranges doc ed"
| "handle ed (Gutter_click block_number) = toggle_fold_at_line block_number ed"

definition run_events :: "event list \<Rightarrow> editor" where
  "run_events events = foldl handle init_editor events"

lemma compute_fold_ranges_folded:
  "folded (compute_fold_ranges doc ed) = folded ed \<inter> dom (fold_ranges (compute_fold_ranges doc ed))"
  by (auto simp: compute_fold_ranges_def Let_def)

lemma compute_fold_ranges_subset:
  "folded (compute_fold_ranges doc ed) \<subseteq> dom (fold_ranges (compute_fold_ranges doc ed))"
  using compute_fold_ranges_folded [of doc ed] by blast

lemma toggle_fold_subset:
  "folded ed \<subseteq> dom (fold_ranges ed) \<Longrightarrow>
   folded (toggle_fold_at_line n ed) \<subseteq> dom (fold_ranges (toggle_fold_at_line n ed))"
  by (auto simp: toggle_fold_at_line_def)

lemma handle_subset:
  "folded ed \<subseteq> dom (fold_ranges ed) \<Longrightarrow> folded (handle ed ev) \<subseteq> dom (fold_ranges (handle ed ev))"
  by (cases ev) (simp_all add: compute_fold_ranges_subset toggle_fold_subset)

lemma foldl_handle_subset:
  "folded ed \<subseteq> dom (fold_ranges ed) \<Longrightarrow>
   folded (foldl handle ed events) \<subseteq> dom (fold_ranges (foldl handle ed events))"
  by (induction events arbitrary: ed) (simp_all add: handle_subset)

definition folded_function :: editor where
  "folded_function = run_events [Text_changed [''function f'', ''x'', ''end''], Gutter_click 0]"

lemma folded_function_state:
  "fold_ranges folded_function 0 = Some 2" "0 \<in> folded folded_function"
  "fold_ranges (compute_fold_ranges [''x''] folded_function) 0 = None"
  by code_simp+

section \<open>Autocomplete\<close>


















lemma length_lower [simp]: "length (lower s) = length s"
  by (simp add: lower_def)







section \<open>Properties of the graph builder\<close>

text \<open>
  C1 (empty-branch join). For the section lines
  \<^verbatim>\<open>["if X", "true:", "A", "endif", "C"]\<close> the builder, under the built-in
  configuration, returns the three nodes cond, A and C with ids \<^verbatim>\<open>n_0\<close>, \<^verbatim>\<open>n_1\<close>,
  \<^verbatim>\<open>n_2\<close> and exactly the edges (cond, A), (A, C), (cond, C): C is reached from the tail A
  of the true branch and from the condition node, which stands in for the empty false branch.
\<close>

theorem empty_branch_join:
  "build_graph default_config [''if X'', ''true:'', ''A'', ''endif'', ''C''] =
     Inr ([\<lparr>node_id = ''n_0'', node_type = ''if_show_variant'', content = ''if X''\<rparr>,
           \<lparr>node_id = ''n_1'', node_type = ''dialogue'', content = ''A''\<rparr>,
           \<lparr>node_id = ''n_2'', node_type = ''dialogue'', content = ''C''\<rparr>],
          [(''n_0'', ''n_1''), (''n_1'', ''n_2''), (''n_0'', ''n_2'')])"
  by code_simp

text \<open>
  C2 (id uniqueness). For every configuration and every section line sequence the builder
  returns a graph, the id of the node at position \<open>i\<close> of its node list is
  \<^verbatim>\<open>n_i\<close> (ids follow emission order, on the main line and inside branches alike), and
  the ids are pairwise distinct.
\<close>

theorem node_ids_distinct_in_order:
  "\<exists>ns es. build_graph cfg lines = Inr (ns, es) \<and>
           map node_id ns = map mk_id [0..<length ns] \<and> distinct (map node_id ns)"
proof -
  from build_graph_inv [of cfg lines]
  obtain b where g: "build_graph cfg lines = Inr (nodes b, connections b)" and i: "builder_ok b" by blast
  from i have n: "numbered 0 (nodes b)" by (simp add: builder_ok_def)
  then have "map node_id (nodes b) = map mk_id [0..<length (nodes b)]" by (simp add: numbered_def)
  with g numbered_distinct [OF n] show ?thesis by blast
qed

text \<open>
  C3 (edge referential integrity). For every configuration and every section line sequence,
  the source and the target of every edge the builder returns are ids of nodes in the node
  list it returns with them.
\<close>

theorem edges_reference_nodes:
  "\<exists>ns es. build_graph cfg lines = Inr (ns, es) \<and>
           fst ` set es \<subseteq> node_id ` set ns \<and> snd ` set es \<subseteq> node_id ` set ns"
proof -
  from build_graph_inv [of cfg lines]
  obtain b where g: "build_graph cfg lines = Inr (nodes b, connections b)" and i: "builder_ok b" by blast
  from i have n: "numbered 0 (nodes b)" and len: "length (nodes b) = node_id_counter b"
    and es: "\<forall>e\<in>set (connections b). fst e \<in> id_range 0 (node_id_counter b) \<and>
                                  snd e \<in> id_range 0 (node_id_counter b)"
    by (simp_all add: builder_ok_def)
  from numbered_set [OF n] len have "node_id ` set (nodes b) = id_range 0 (node_id_counter b)" by simp
  with es have "fst ` set (connections b) \<subseteq> node_id ` set (nodes b)"
    and "snd ` set (connections b) \<subseteq> node_id ` set (nodes b)" by auto
  with g show ?thesis by blast
qed

text \<open>
  C5 (call sites are typed \<^verbatim>\<open>function\<close> everywhere). On the main line the builder
  renames \<^verbatim>\<open>function_call\<close> to \<^verbatim>\<open>function\<close>; \<^verbatim>\<open>process_branch\<close> runs the same
  classification loop without the renaming. Under the built-in configuration the line
  \<^verbatim>\<open>call foo\<close> inside a true branch yields a node of type \<^verbatim>\<open>function_call\<close>, while the
  same line on the main line yields a node of type \<^verbatim>\<open>function\<close>.
\<close>

theorem branch_call_keeps_function_call:
  "build_graph default_config [''if X'', ''true:'', ''call foo'', ''endif''] =
     Inr ([\<lparr>node_id = ''n_0'', node_type = ''if_show_variant'', content = ''if X''\<rparr>,
           \<lparr>node_id = ''n_1'', node_type = ''function_call'', content = ''call foo''\<rparr>],
          [(''n_0'', ''n_1'')])
   \<and> build_graph default_config [''call foo''] =
     Inr ([\<lparr>node_id = ''n_0'', node_type = ''function'', content = ''call foo''\<rparr>], [])"
  by code_simp

text \<open>
  C6 (ignored lines produce no node). On the main line a line matching an ignore pattern is
  skipped; \<^verbatim>\<open>process_branch\<close> skips blank lines only and never consults
  \<^verbatim>\<open>ignore_patterns\<close>, although \<^verbatim>\<open>_parse_conditional_block\<close> receives them. Under the
  built-in configuration the line \<^verbatim>\<open>name: x\<close> matches an ignore pattern; inside a true
  branch it yields a node, on the main line it yields none.
\<close>

theorem branch_line_not_ignored:
  "ignored default_config ''name: x''
   \<and> build_graph default_config [''if X'', ''true:'', ''name: x'', ''endif''] =
     Inr ([\<lparr>node_id = ''n_0'', node_type = ''if_show_variant'', content = ''if X''\<rparr>,
           \<lparr>node_id = ''n_1'', node_type = ''dialogue'', content = ''name: x''\<rparr>],
          [(''n_0'', ''n_1'')])
   \<and> build_graph default_config [''name: x''] = Inr ([], [])"
  by code_simp

text \<open>
  C8 (missing \<^verbatim>\<open>endif\<close>). Let line \<open>i\<close> of a section be a conditional trigger with no
  line reading \<^verbatim>\<open>endif\<close> after it. Then no index check fails: the pre-scan returns its
  groups, the last of which is a conditional block that starts at a trigger line \<open>k \<le> i\<close>
  and holds every line from there through the end of the section; the builder returns a graph
  whose node ids are pairwise distinct and whose edges only mention ids of its nodes; and this
  graph is the one the builder returns when the section is closed by an explicit
  \<^verbatim>\<open>endif\<close> line, so the end of the section acts as the closing line.
\<close>

theorem missing_endif_implicit_close:
  assumes "i < length lines"
    and "is_trigger (strip (lines ! i))"
    and "\<forall>j. i < j \<and> j < length lines \<longrightarrow> lower (strip (lines ! j)) \<noteq> ''endif''"
  shows "\<exists>k items ns es.
           k \<le> i \<and> is_trigger (strip (lines ! k)) \<and>
           group_lines lines 0 [] = Inr (items @ [Conditional (map strip (drop k lines))]) \<and>
           build_graph cfg lines = Inr (ns, es) \<and>
           distinct (map node_id ns) \<and>
           fst ` set es \<subseteq> node_id ` set ns \<and> snd ` set es \<subseteq> node_id ` set ns \<and>
           build_graph cfg (lines @ [''endif'']) = Inr (ns, es)"
proof -
  let ?post = "drop (Suc i) lines"
  from assms(1) have split: "lines = take i lines @ lines ! i # ?post"
    by (rule id_take_nth_drop)
  have post: "\<forall>x\<in>set ?post. \<not> is_endif x"
  proof
    fix x assume "x \<in> set ?post"
    then obtain m where m: "m < length ?post" and x: "x = ?post ! m"
      by (auto simp: in_set_conv_nth)
    from m have "Suc i + m < length lines" by simp
    moreover from m x have "x = lines ! (Suc i + m)" by simp
    ultimately show "\<not> is_endif x" using assms(3) by (simp add: is_endif_def)
  qed
  from groups_unterminated [OF split assms(2) post is_endif_literal]
  obtain items zs ys where xs: "lines = zs @ ys" and len: "length zs \<le> length (take i lines)"
    and ne: "ys \<noteq> []" and trig: "is_trigger (strip (hd ys))"
    and g: "groups lines = items @ [Conditional (map strip ys)]"
    and g': "groups (lines @ [''endif'']) = items @ [Conditional (map strip (ys @ [''endif'']))]"
    by (elim exE conjE)
  let ?k = "length zs"
  from len assms(1) have k: "?k \<le> i" by simp
  from xs have dk: "drop ?k lines = ys" by simp
  from xs ne have "lines ! ?k = hd ys" by (simp add: nth_append hd_conv_nth)
  with trig have tk: "is_trigger (strip (lines ! ?k))" by simp
  have grp: "group_lines lines 0 [] = Inr (items @ [Conditional (map strip (drop ?k lines))])"
    by (simp add: group_lines_pure g dk)
  from build_graph_inv [of cfg lines]
  obtain b where bg: "build_graph cfg lines = Inr (nodes b, connections b)" and ok: "builder_ok b"
    by (elim exE conjE)
  from ok have n: "numbered 0 (nodes b)" and lenb: "length (nodes b) = node_id_counter b"
    and es: "\<forall>e\<in>set (connections b). fst e \<in> id_range 0 (node_id_counter b) \<and>
                                  snd e \<in> id_range 0 (node_id_counter b)"
    by (simp_all add: builder_ok_def)
  from numbered_set [OF n] lenb
  have ids: "node_id ` set (nodes b) = id_range 0 (node_id_counter b)" by simp
  with es have e1: "fst ` set (connections b) \<subseteq> node_id ` set (nodes b)"
    and e2: "snd ` set (connections b) \<subseteq> node_id ` set (nodes b)" by auto
  from ne have bne: "map strip ys \<noteq> []" by simp
  have blk: "map strip (ys @ [''endif'']) = map strip ys @ [''endif'']"
    by (simp add: endif_literal)
  have "process_items cfg init_builder (groups (lines @ [''endif''])) =
        process_items cfg init_builder (groups lines)"
    unfolding g g' blk process_items_snoc process_item_def
    by (simp only: item.case add_conditional_endif_snoc [OF is_endif_literal bne])
  then have same: "build_graph cfg (lines @ [''endif'']) = build_graph cfg lines"
    by (simp only: build_graph_groups)
  show ?thesis
    by (intro exI [of _ ?k] exI [of _ items] exI [of _ "nodes b"] exI [of _ "connections b"] conjI)
      (fact k tk grp bg numbered_distinct [OF n] e1 e2 same [unfolded bg])+
qed

theorem missing_endif_implicit_close_witness:
  "(1::nat) < length [''A'', ''if X'', ''true:'', ''B''] \<and>
   is_trigger (strip ([''A'', ''if X'', ''true:'', ''B''] ! 1)) \<and>
   (\<exists>k items ns es.
      k \<le> 1 \<and> is_trigger (strip ([''A'', ''if X'', ''true:'', ''B''] ! k)) \<and>
      group_lines [''A'', ''if X'', ''true:'', ''B''] 0 [] =
        Inr (items @ [Conditional (map strip (drop k [''A'', ''if X'', ''true:'', ''B'']))]) \<and>
      build_graph default_config [''A'', ''if X'', ''true:'', ''B''] = Inr (ns, es) \<and>
      distinct (map node_id ns) \<and>
      fst ` set es \<subseteq> node_id ` set ns \<and> snd ` set es \<subseteq> node_id ` set ns \<and>
      build_graph default_config ([''A'', ''if X'', ''true:'', ''B''] @ [''endif'']) = Inr (ns, es))"
  using missing_endif_implicit_close [OF unterminated_example_length unterminated_example_trigger unterminated_example_no_endif, of default_config] unterminated_example_length unterminated_example_trigger
  by (intro conjI) assumption+

text \<open>
  C10 (consecutive conditional runs). Let the pre-scan of a section yield a conditional run,
  then only normal lines that match an ignore pattern, then a second conditional run. Then
  the condition node of the second run is in the graph and no edge of the graph leads into
  it; after the second run no main-line predecessor is recorded and the pending join-sources
  are those pending before the first run followed by the true and false tails of the first
  run and of the second; and the first normal line after the second run that is kept,
  whatever ignored lines and further conditional runs come before it, gets a node that
  receives an edge from every join-source pending after the second run, and from every
  join-source that the runs in between have added.
\<close>

theorem consecutive_conditionals_join:
  assumes grp: "group_lines lines 0 [] =
      Inr (before @ Conditional blk1 # map (\<lambda>l. Normal [l]) skipped @ Conditional blk2 # after)"
    and ign: "list_all (ignored cfg) skipped"
  shows "\<exists>b0 b2 c_nodes1 c_conns1 t1 f1 c_nodes2 c_conns2 t2 f2 ns es.
     process_items cfg init_builder before = Inr b0 \<and>
     parse_conditional_block cfg blk1 (node_id_counter b0) =
       Inr (c_nodes1, c_conns1, Some t1, Some f1) \<and>
     parse_conditional_block cfg blk2 (node_id_counter b0 + length c_nodes1) =
       Inr (c_nodes2, c_conns2, Some t2, Some f2) \<and>
     c_nodes2 \<noteq> [] \<and>
     node_id (hd c_nodes2) = mk_id (node_id_counter b0 + length c_nodes1) \<and>
     process_items cfg init_builder
       (before @ Conditional blk1 # map (\<lambda>l. Normal [l]) skipped @ [Conditional blk2]) = Inr b2 \<and>
     conditional_end_nodes b2 = conditional_end_nodes b0 @ [t1, f1, t2, f2] \<and>
     prev_node b2 = None \<and>
     build_graph cfg lines = Inr (ns, es) \<and>
     hd c_nodes2 \<in> set ns \<and>
     node_id (hd c_nodes2) \<notin> snd ` set es \<and>
     (\<forall>pending l rest.
        after = pending @ Normal [l] # rest \<and>
        list_all (adds_no_main_node cfg) pending \<and> \<not> ignored cfg l \<longrightarrow>
        (\<exists>b3 n. process_items cfg b2 pending = Inr b3 \<and>
             n \<in> set ns \<and> content n = l \<and> node_id n = mk_id (node_id_counter b3) \<and>
             (\<forall>j\<in>set (conditional_end_nodes b2). (node_id j, node_id n) \<in> set es) \<and>
             (\<forall>j\<in>set (conditional_end_nodes b3). (node_id j, node_id n) \<in> set es)))"
proof -
  let ?skip = "map (\<lambda>l. Normal [l]) skipped"
  from grp have g: "groups lines = before @ Conditional blk1 # ?skip @ Conditional blk2 # after"
    by (simp add: group_lines_pure)
  have "Conditional blk1 \<in> set (groups lines)" "Conditional blk2 \<in> set (groups lines)"
    unfolding g by simp_all
  then have ne1: "blk1 \<noteq> []" and ne2: "blk2 \<noteq> []"
    by (simp_all add: groups_conditional_nonempty)
  from builder_ok_process_items [OF builder_ok_init, of cfg before]
  obtain b0 where p0: "process_items cfg init_builder before = Inr b0" and ok0: "builder_ok b0"
    by (elim exE conjE)
  let ?k0 = "node_id_counter b0"
  obtain cn1 cc1 lt1 lf1 where cb1: "cond_block cfg blk1 ?k0 = (cn1, cc1, lt1, lf1)"
    by (metis prod_cases4)
  note sh1 = cond_block_shape [OF cb1]
  from sh1(4) obtain t1 f1 where tf1: "lt1 = Some t1" "lf1 = Some f1" by (elim exE conjE)
  let ?k1 = "?k0 + length cn1"
  define b1 where "b1 = b0\<lparr>nodes := nodes b0 @ cn1,
            connections := connections b0 @ cc1 @
              (case prev_node b0 of Some p \<Rightarrow> [(node_id p, node_id (hd cn1))] | None \<Rightarrow> []),
            conditional_end_nodes := conditional_end_nodes b0 @ opt_list lt1 @ opt_list lf1,
            node_id_counter := ?k1,
            prev_node := None\<rparr>"
  have a1: "add_conditional cfg b0 blk1 = Inr b1"
    unfolding b1_def by (rule add_conditional_pure [OF ne1 cb1])
  from builder_ok_add_conditional [OF ok0, of cfg blk1] a1 have ok1: "builder_ok b1" by simp
  have c1: "node_id_counter b1 = ?k1" and pv1: "prev_node b1 = None"
    and ce1: "conditional_end_nodes b1 = conditional_end_nodes b0 @ [t1, f1]"
    by (simp_all add: b1_def tf1 opt_list_def)
  obtain cn2 cc2 lt2 lf2 where cb2: "cond_block cfg blk2 ?k1 = (cn2, cc2, lt2, lf2)"
    by (metis prod_cases4)
  note sh2 = cond_block_shape [OF cb2]
  from sh2(4) obtain t2 f2 where tf2: "lt2 = Some t2" "lf2 = Some f2" by (elim exE conjE)
  let ?k2 = "?k1 + length cn2"
  define b2 where "b2 = b1\<lparr>nodes := nodes b1 @ cn2,
            connections := connections b1 @ cc2,
            conditional_end_nodes := conditional_end_nodes b1 @ [t2, f2],
            node_id_counter := ?k2,
            prev_node := None\<rparr>"
  from cb2 c1 have cb2': "cond_block cfg blk2 (node_id_counter b1) = (cn2, cc2, lt2, lf2)" by simp
  have a2: "add_conditional cfg b1 blk2 = Inr b2"
    unfolding add_conditional_pure [OF ne2 cb2'] b2_def
    by (simp add: pv1 c1 tf2 opt_list_def)
  from builder_ok_add_conditional [OF ok1, of cfg blk2] a2 have ok2: "builder_ok b2" by simp
  have c2: "node_id_counter b2 = ?k2" and pv2: "prev_node b2 = None"
    and ce2: "conditional_end_nodes b2 = conditional_end_nodes b0 @ [t1, f1, t2, f2]"
    and n2: "nodes b2 = nodes b1 @ cn2" and e2: "connections b2 = connections b1 @ cc2"
    by (simp_all add: b2_def ce1)
  have pc1: "parse_conditional_block cfg blk1 ?k0 = Inr (cn1, cc1, Some t1, Some f1)"
    using parse_conditional_block_pure [OF ne1, of cfg ?k0] cb1 tf1 by simp
  have pc2: "parse_conditional_block cfg blk2 ?k1 = Inr (cn2, cc2, Some t2, Some f2)"
    using parse_conditional_block_pure [OF ne2, of cfg ?k1] cb2 tf2 by simp
  have p2: "process_items cfg init_builder (before @ Conditional blk1 # ?skip @ [Conditional blk2]) = Inr b2"
  proof -
    have "process_items cfg b1 (?skip @ [Conditional blk2]) = Inr b2"
      by (simp add: process_items_append process_ignored [OF ign] process_item_def a2)
    then have "process_items cfg b0 (Conditional blk1 # ?skip @ [Conditional blk2]) = Inr b2"
      by (simp add: process_item_def a1)
    then show ?thesis by (simp add: process_items_append p0)
  qed
  from builder_ok_process_items [OF ok2, of cfg after]
  obtain bf where pf: "process_items cfg b2 after = Inr bf" and okf: "builder_ok bf"
    by (elim exE conjE)
  have gs: "groups lines = (before @ Conditional blk1 # ?skip @ [Conditional blk2]) @ after"
    by (simp add: g)
  have "process_items cfg init_builder (groups lines) = Inr bf"
    unfolding gs
    using process_items_append [of cfg init_builder "before @ Conditional blk1 # ?skip @ [Conditional blk2]" after]
    by (simp only: p2 pf sum.case)
  then have bg: "build_graph cfg lines = Inr (nodes bf, connections bf)"
    by (simp add: build_graph_groups)
  from extends_process_items [OF pf]
  obtain more new where nf: "nodes bf = nodes b2 @ more" and ef: "connections bf = connections b2 @ new"
    and tnew: "\<forall>e\<in>set new. snd e \<in> id_range (node_id_counter b2) (node_id_counter bf)"
    unfolding extends_def by (elim exE conjE)
  from sh2(1) have hd_in: "hd cn2 \<in> set cn2" by simp
  from sh2(1) numbered_nth [OF sh2(2), of 0] have hd_id: "node_id (hd cn2) = mk_id ?k1"
    by (simp add: hd_conv_nth)
  have mem: "hd cn2 \<in> set (nodes bf)"
    using hd_in by (simp add: nf n2)
  have noedge: "node_id (hd cn2) \<notin> snd ` set (connections bf)"
  proof
    assume "node_id (hd cn2) \<in> snd ` set (connections bf)"
    then obtain e where e: "e \<in> set (connections bf)" and se: "snd e = mk_id ?k1"
      using hd_id by auto
    from e consider "e \<in> set (connections b1)" | "e \<in> set cc2" | "e \<in> set new"
      by (auto simp: ef e2)
    then show False
    proof cases
      case 1
      with ok1 have "snd e \<in> id_range 0 (node_id_counter b1)" by (simp add: builder_ok_def)
      with se c1 mk_id_not_in_range [of "?k1" 0 "?k1"] show False by simp
    next
      case 2
      with sh2(3) have "snd e \<in> id_range (?k1 + 1) ?k2" by simp
      with se mk_id_not_in_range [of "?k1" "?k1 + 1" ?k2] show False by simp
    next
      case 3
      with tnew c2 have "snd e \<in> id_range ?k2 (node_id_counter bf)" by simp
      moreover from sh2(1) have "?k1 < ?k2" by simp
      ultimately show False using se mk_id_not_in_range [of "?k1" ?k2 "node_id_counter bf"] by simp
    qed
  qed
  have join: "\<forall>pending l rest.
        after = pending @ Normal [l] # rest \<and>
        list_all (adds_no_main_node cfg) pending \<and> \<not> ignored cfg l \<longrightarrow>
        (\<exists>b3 n. process_items cfg b2 pending = Inr b3 \<and>
             n \<in> set (nodes bf) \<and> content n = l \<and> node_id n = mk_id (node_id_counter b3) \<and>
             (\<forall>j\<in>set (conditional_end_nodes b2). (node_id j, node_id n) \<in> set (connections bf)) \<and>
             (\<forall>j\<in>set (conditional_end_nodes b3). (node_id j, node_id n) \<in> set (connections bf)))"
  proof (intro allI impI, elim conjE)
    fix pending l rest
    assume af: "after = pending @ Normal [l] # rest"
      and pend: "list_all (adds_no_main_node cfg) pending" and keep: "\<not> ignored cfg l"
    from pf af have whole: "(case process_items cfg b2 pending of Inl e \<Rightarrow> Inl e
        | Inr b' \<Rightarrow> process_items cfg b' (Normal [l] # rest)) = Inr bf"
      by (simp only: process_items_append)
    then obtain b3 where p3: "process_items cfg b2 pending = Inr b3"
      by (cases "process_items cfg b2 pending") simp_all
    let ?b4 = "add_line cfg b3 l"
    from whole p3 have "process_items cfg ?b4 rest = Inr bf"
      by (simp add: process_item_def)
    from extends_process_items [OF this]
    obtain more4 new4 where nf4: "nodes bf = nodes ?b4 @ more4"
      and ef4: "connections bf = connections ?b4 @ new4"
      unfolding extends_def by (elim exE conjE)
    from process_pending_join_sources [OF pend p3]
    obtain more where grow: "conditional_end_nodes b3 = conditional_end_nodes b2 @ more"
      by (elim exE)
    from add_line_kept [OF keep, of b3] obtain n where
      n: "nodes ?b4 = nodes b3 @ [n]" "content n = l" "node_id n = mk_id (node_id_counter b3)"
      "\<forall>j\<in>set (conditional_end_nodes b3). (node_id j, node_id n) \<in> set (connections ?b4)"
      by (elim exE conjE)
    from n(1) have 1: "n \<in> set (nodes bf)" by (simp add: nf4)
    from n(4) have 3: "\<forall>j\<in>set (conditional_end_nodes b3). (node_id j, node_id n) \<in> set (connections bf)"
      by (simp add: ef4)
    then have 2: "\<forall>j\<in>set (conditional_end_nodes b2). (node_id j, node_id n) \<in> set (connections bf)"
      by (simp add: grow)
    show "\<exists>b3 n. process_items cfg b2 pending = Inr b3 \<and>
             n \<in> set (nodes bf) \<and> content n = l \<and> node_id n = mk_id (node_id_counter b3) \<and>
             (\<forall>j\<in>set (conditional_end_nodes b2). (node_id j, node_id n) \<in> set (connections bf)) \<and>
             (\<forall>j\<in>set (conditional_end_nodes b3). (node_id j, node_id n) \<in> set (connections bf))"
      by (intro exI [of _ b3] exI [of _ n] conjI) (fact p3 1 n(2) n(3) 2 3)+
  qed
  show ?thesis
    apply (rule exI [of _ b0], rule exI [of _ b2])
    apply (rule exI [of _ cn1], rule exI [of _ cc1], rule exI [of _ t1], rule exI [of _ f1])
    apply (rule exI [of _ cn2], rule exI [of _ cc2], rule exI [of _ t2], rule exI [of _ f2])
    apply (rule exI [of _ "nodes bf"], rule exI [of _ "connections bf"])
    apply (intro conjI)
               apply (fact p0)
              apply (fact pc1)
             apply (fact pc2)
            apply (fact sh2(1))
           apply (fact hd_id)
          apply (fact p2)
         apply (fact ce2)
        apply (fact pv2)
       apply (fact bg)
      apply (fact mem)
     apply (fact noedge)
    apply (fact join)
    done
qed

theorem consecutive_conditionals_join_witness:
  "group_lines three_runs 0 [] =
     Inr ([] @ Conditional [''if X'', ''true:'', ''A'', ''endif'']
             # map (\<lambda>l. Normal [l]) [''''] @
             Conditional [''if Y'', ''false:'', ''B'', ''endif'']
             # [Conditional [''if Z'', ''endif''], Normal [''C'']]) \<and>
   list_all (ignored default_config) [''''] \<and>
   (\<exists>b0 b2 c_nodes1 c_conns1 t1 f1 c_nodes2 c_conns2 t2 f2 ns es.
     process_items default_config init_builder [] = Inr b0 \<and>
     parse_conditional_block default_config [''if X'', ''true:'', ''A'', ''endif'']
         (node_id_counter b0) = Inr (c_nodes1, c_conns1, Some t1, Some f1) \<and>
     parse_conditional_block default_config [''if Y'', ''false:'', ''B'', ''endif'']
         (node_id_counter b0 + length c_nodes1) = Inr (c_nodes2, c_conns2, Some t2, Some f2) \<and>
     c_nodes2 \<noteq> [] \<and>
     node_id (hd c_nodes2) = mk_id (node_id_counter b0 + length c_nodes1) \<and>
     process_items default_config init_builder
       ([] @ Conditional [''if X'', ''true:'', ''A'', ''endif'']
           # map (\<lambda>l. Normal [l]) [''''] @
           [Conditional [''if Y'', ''false:'', ''B'', ''endif'']]) = Inr b2 \<and>
     conditional_end_nodes b2 = conditional_end_nodes b0 @ [t1, f1, t2, f2] \<and>
     prev_node b2 = None \<and>
     build_graph default_config three_runs = Inr (ns, es) \<and>
     hd c_nodes2 \<in> set ns \<and>
     node_id (hd c_nodes2) \<notin> snd ` set es \<and>
     (\<forall>pending l rest.
        [Conditional [''if Z'', ''endif''], Normal [''C'']] = pending @ Normal [l] # rest \<and>
        list_all (adds_no_main_node default_config) pending \<and> \<not> ignored default_config l \<longrightarrow>
        (\<exists>b3 n. process_items default_config b2 pending = Inr b3 \<and>
             n \<in> set ns \<and> content n = l \<and> node_id n = mk_id (node_id_counter b3) \<and>
             (\<forall>j\<in>set (conditional_end_nodes b2). (node_id j, node_id n) \<in> set es) \<and>
             (\<forall>j\<in>set (conditional_end_nodes b3). (node_id j, node_id n) \<in> set es))))"
  using consecutive_conditionals_join [OF three_runs_groups three_runs_skipped]
    three_runs_groups three_runs_skipped
  by (intro conjI) assumption+

section \<open>Properties of the section splitter\<close>

text \<open>
  C4, as stated, fails. The document \<^verbatim>\<open>"\\n---\\nfoo"\<close> splits into an empty block and
  the block \<^verbatim>\<open>foo\<close>; the only emitted block is the first among the emitted ones, and
  its default name is \<^verbatim>\<open>Section 2\<close>, not \<^verbatim>\<open>Section 1\<close>.
\<close>

theorem default_name_uses_raw_index:
  "split (separator @ ''foo'') separator = ['''', ''foo''] \<and>
   parse_script_content default_config (separator @ ''foo'') =
     Inr [(''Section 2'',
           [\<lparr>node_id = ''n_0'', node_type = ''dialogue'', content = ''foo''\<rparr>], [])] \<and>
   ''Section 2'' \<noteq> ''Section '' @ str_nat 1"
  by code_simp

text \<open>
  C4, amended. For every configuration and document the splitter returns one tab for each
  block of the split at the separator whose stripped text is not empty, in order; the graph
  of the tab is the builder's graph of the stripped block's lines; its name is the stripped
  group of the first \<^verbatim>\<open>name:\<close> match in the stripped block and, when there is no match,
  \<^verbatim>\<open>Section N\<close> with \<open>N\<close> the 1-based index of the block in the raw split (empty
  blocks counted).
\<close>

theorem section_names_by_raw_index:
  "\<exists>tabs. parse_script_content cfg document = Inr tabs \<and>
     map fst tabs =
       map (\<lambda>(i, raw). case name_search True (strip raw) of
                          Some g \<Rightarrow> strip g
                        | None \<Rightarrow> ''Section '' @ str_nat (i + 1))
           (filter (\<lambda>(i, raw). strip raw \<noteq> []) (enumerate 0 (split document separator))) \<and>
     map (\<lambda>t. Inr (snd t)) tabs =
       map (\<lambda>(i, raw). build_graph cfg (split (strip raw) [newline]))
           (filter (\<lambda>(i, raw). strip raw \<noteq> []) (enumerate 0 (split document separator)))"
  using parse_sections_spec [of cfg 0 "split document separator"]
  by (simp add: parse_script_content_def kept_blocks_def section_name_def)

theorem section_names_by_raw_index_witness:
  "\<exists>tabs. parse_script_content default_config (separator @ ''foo'') = Inr tabs \<and>
     map fst tabs = [''Section 2'']"
proof -
  have e: "filter (\<lambda>(i, raw). strip raw \<noteq> []) (enumerate 0 (split (separator @ ''foo'') separator))
           = [(1, ''foo'')]"
    by code_simp
  have n: "(case name_search True (strip ''foo'') of
              Some g \<Rightarrow> strip g | None \<Rightarrow> ''Section '' @ str_nat (1 + 1)) = ''Section 2''"
    by code_simp
  from section_names_by_raw_index [of default_config "separator @ ''foo''"]
  obtain tabs where p: "parse_script_content default_config (separator @ ''foo'') = Inr tabs"
    and m: "map fst tabs =
       map (\<lambda>(i, raw). case name_search True (strip raw) of
                          Some g \<Rightarrow> strip g
                        | None \<Rightarrow> ''Section '' @ str_nat (i + 1))
           (filter (\<lambda>(i, raw). strip raw \<noteq> [])
              (enumerate 0 (split (separator @ ''foo'') separator)))"
    by (elim exE conjE)
  from m have "map fst tabs = [''Section 2'']"
    by (simp only: e list.map prod.case n)
  with p show ?thesis by (intro exI [of _ tabs] conjI)
qed

section \<open>Properties of the fold state\<close>

text \<open>
  C9 (fold pruning). After any sequence of recomputations and gutter clicks, starting from a
  new editor, the folded set is a subset of the keys of the fold ranges. A recomputation
  leaves in the folded set exactly those of its elements that are keys of the new ranges, so
  a start line that is not a key of the new ranges is not in the new folded set either.
\<close>

theorem folded_subset_of_fold_ranges:
  "folded (run_events events) \<subseteq> dom (fold_ranges (run_events events)) \<and>
   folded (compute_fold_ranges doc ed) =
     folded ed \<inter> dom (fold_ranges (compute_fold_ranges doc ed)) \<and>
   (s \<notin> dom (fold_ranges (compute_fold_ranges doc ed)) \<longrightarrow>
      s \<notin> folded (compute_fold_ranges doc ed))"
proof (intro conjI impI)
  show "folded (run_events events) \<subseteq> dom (fold_ranges (run_events events))"
    unfolding run_events_def by (rule foldl_handle_subset) (simp add: init_editor_def)
  show "folded (compute_fold_ranges doc ed) =
     folded ed \<inter> dom (fold_ranges (compute_fold_ranges doc ed))"
    by (rule compute_fold_ranges_folded)
  assume "s \<notin> dom (fold_ranges (compute_fold_ranges doc ed))"
  with compute_fold_ranges_subset [of doc ed]
  show "s \<notin> folded (compute_fold_ranges doc ed)" by blast
qed

theorem folded_subset_of_fold_ranges_witness:
  "fold_ranges folded_function 0 = Some 2 \<and> 0 \<in> folded folded_function \<and>
   0 \<notin> dom (fold_ranges (compute_fold_ranges [''x''] folded_function)) \<and>
   0 \<notin> folded (compute_fold_ranges [''x''] folded_function) \<and>
   folded (run_events [Text_changed [''function f'', ''x'', ''end''], Gutter_click 0])
     \<subseteq> dom (fold_ranges (run_events [Text_changed [''function f'', ''x'', ''end''], Gutter_click 0]))"
proof -
  have gone: "0 \<notin> dom (fold_ranges (compute_fold_ranges [''x''] folded_function))"
    by (simp add: domIff folded_function_state)
  from folded_subset_of_fold_ranges
         [of "[Text_changed [''function f'', ''x'', ''end''], Gutter_click 0]"
             "[''x'']" folded_function 0] gone
  show ?thesis by (simp add: folded_function_state)
qed

section \<open>Properties of the autocomplete\<close>




end
